theory Spec2Isabelle
  imports Main
begin

section \<open>JavaScript values, objects and the runtime store\<close>

text \<open>
  The optimizer is configured through plain JavaScript objects. A property value is one
  of the values below; an object is the list of its own enumerable properties in
  insertion order. Reading a property that is absent yields \<open>Undefined\<close>, as
  \<open>obj[key]\<close> does.
\<close>

datatype jsval = Undefined | Null | Bool bool | Num int | Str string
  | Obj "(string \<times> jsval) list"

type_synonym jsobj = "(string \<times> jsval) list"

text \<open>The truthiness test of \<open>if (v)\<close> and \<open>!v\<close>.\<close>

fun truthy :: "jsval \<Rightarrow> bool" where
  "truthy Undefined = False"
| "truthy Null = False"
| "truthy (Bool b) = b"
| "truthy (Num n) = (n \<noteq> 0)"
| "truthy (Str s) = (s \<noteq> [])"
| "truthy (Obj ps) = True"

definition get_prop :: "jsobj \<Rightarrow> string \<Rightarrow> jsval" where
  "get_prop obj k = (case map_of obj k of None \<Rightarrow> Undefined | Some v \<Rightarrow> v)"

text \<open>
  \<open>obj[k] = v\<close>: an existing property keeps its place, a new one is added at the end.
\<close>

fun set_prop :: "string \<Rightarrow> jsval \<Rightarrow> jsobj \<Rightarrow> jsobj" where
  "set_prop k v [] = [(k, v)]"
| "set_prop k v ((k', v') # ps) =
     (if k' = k then (k, v) # ps else (k', v') # set_prop k v ps)"

definition Object_keys :: "(string \<times> 'v) list \<Rightarrow> string list" where
  "Object_keys obj = map fst obj"

type_synonym ref = nat

datatype error = CssSyntaxError string | Thrown string

text \<open>
  A stylesheet handed to the optimizer: its \<open>content\<close> is either the raw text or a
  reference to a parser result that already exists. Source maps are kept as their JSON
  text.
\<close>

datatype content = Raw string | Parsed ref

record CssFile =
  content :: content
  filename :: "string option"
  sourceMap :: "string option"

text \<open>
  The trace records the calls the optimizer makes to its collaborators: the construction
  of a pass (with the key under which the pass is registered), the invocation of the
  parser on a raw text, and the invocation of a pass method together with the style
  mapping and the selector cache it was handed and the state it left them in.
\<close>

datatype ('m, 'c) event =
    NewOptimization string
  | ParserCall string
  | SingleFileCall string CssFile 'm 'c 'm 'c
  | AllFilesCall string "CssFile list" 'm 'c 'm 'c

text \<open>
  The runtime store: the option objects and the parser results live at addresses, and
  \<open>next_ref\<close> is the first address not yet allocated.
\<close>

record ('m, 'c, 't) runtime =
  objects :: "ref \<Rightarrow> jsobj"
  results :: "ref \<Rightarrow> 't"
  next_ref :: ref
  trace :: "('m, 'c) event list"

text \<open>
  \<open>Object.assign(target, ...sources)\<close>: for every source in turn and every own key of
  it in turn, the value is read from the source and written to the target. Only the
  target object is written.
\<close>

definition assign_from :: "jsobj \<Rightarrow> jsobj \<Rightarrow> jsobj" where
  "assign_from src tgt = fold (\<lambda>k t. set_prop k (get_prop src k) t) (Object_keys src) tgt"

fun Object_assign :: "ref \<Rightarrow> ref list \<Rightarrow> ('m, 'c, 't) runtime \<Rightarrow> ('m, 'c, 't) runtime" where
  "Object_assign target [] rt = rt"
| "Object_assign target (s # ss) rt =
     Object_assign target ss
       (rt\<lparr>objects := (objects rt)(target := assign_from (objects rt s) (objects rt target))\<rparr>)"

section \<open>Optimization passes and the collaborators\<close>

text \<open>
  A pass method returns nothing: it works on the style mapping, the selector cache and
  the rule trees behind the files it is handed, and it may throw. The model hands it
  the mapping, the file(s), the analyses, the cache and the parser results, and gets
  back the error it threw, if any, and the three as it left them.
\<close>

type_synonym ('m, 'c, 't, 'a) single_method =
  "'m \<Rightarrow> CssFile \<Rightarrow> 'a list \<Rightarrow> 'c \<Rightarrow> (ref \<Rightarrow> 't) \<Rightarrow> error option \<times> 'm \<times> 'c \<times> (ref \<Rightarrow> 't)"

type_synonym ('m, 'c, 't, 'a) multi_method =
  "'m \<Rightarrow> CssFile list \<Rightarrow> 'a list \<Rightarrow> 'c \<Rightarrow> (ref \<Rightarrow> 't) \<Rightarrow> error option \<times> 'm \<times> 'c \<times> (ref \<Rightarrow> 't)"

record ('m, 'c, 't, 'a) Optimization =
  optimizeSingleFile :: "('m, 'c, 't, 'a) single_method option"
  optimizeAllFiles :: "('m, 'c, 't, 'a) multi_method option"

text \<open>
  What the module imports and does not define itself: the table of pass constructors
  (in the order of its keys), the address of the default options, the constructors of
  the style mapping and of the selector cache, the parser, the printer (given a parser
  result and the name of the output file, it yields the text and its source map) and the
  source map that the concatenation library computes from the name of the output file
  and the files added to it.
\<close>

record ('m, 'c, 't, 'a) env =
  DEFAULT_OPTIONS :: ref
  optimizations :: "(string \<times> (jsobj \<Rightarrow> error + ('m, 'c, 't, 'a) Optimization)) list"
  new_StyleMapping :: 'm
  new_SelectorCache :: 'c
  postcss_process :: "string \<Rightarrow> string option \<Rightarrow> string option \<Rightarrow> error + 't"
  toResult :: "'t \<Rightarrow> string \<Rightarrow> string \<times> string"
  merged_sourceMap :: "string \<Rightarrow> (string \<times> string \<times> string) list \<Rightarrow> string option"

definition optimizesSingleFiles :: "('m, 'c, 't, 'a) Optimization \<Rightarrow> bool" where
  "optimizesSingleFiles optimization =
     (if optimizeSingleFile optimization \<noteq> None then True else False)"

definition optimizesAllFiles :: "('m, 'c, 't, 'a) Optimization \<Rightarrow> bool" where
  "optimizesAllFiles optimization =
     (if optimizeAllFiles optimization \<noteq> None then True else False)"

section \<open>The optimizer\<close>

text \<open>
  The two pass groups hold the pass objects; each is kept with the key of the table it
  was constructed from, which the trace uses to name it.
\<close>

record ('m, 'c, 't, 'a) Optimizer =
  sources :: "CssFile list"
  analyses :: "'a list"
  options :: ref
  singleFileOptimizations :: "(string \<times> ('m, 'c, 't, 'a) Optimization) list"
  multiFileOptimizations :: "(string \<times> ('m, 'c, 't, 'a) Optimization) list"

text \<open>
  The body of the constructor's loop over \<open>Object.keys(optimizations)\<close>. A constructor
  that throws ends the loop and the construction.
\<close>

fun instantiate ::
  "(string \<times> (jsobj \<Rightarrow> error + ('m, 'c, 't, 'a) Optimization)) list \<Rightarrow>
   ('m, 'c, 't, 'a) Optimizer \<Rightarrow> ('m, 'c, 't) runtime \<Rightarrow>
   (error + ('m, 'c, 't, 'a) Optimizer) \<times> ('m, 'c, 't) runtime" where
  "instantiate [] this rt = (Inr this, rt)"
| "instantiate ((opt, Optimization) # rest) this rt =
     (if truthy (get_prop (objects rt (options this)) opt) then
        (let rt' = rt\<lparr>trace := trace rt @ [NewOptimization opt]\<rparr> in
         case Optimization (objects rt (options this)) of
           Inl e \<Rightarrow> (Inl e, rt')
         | Inr optimization \<Rightarrow>
             (let this1 = (if optimizesSingleFiles optimization
                           then this\<lparr>singleFileOptimizations :=
                                  singleFileOptimizations this @ [(opt, optimization)]\<rparr>
                           else this);
                  this2 = (if optimizesAllFiles optimization
                           then this1\<lparr>multiFileOptimizations :=
                                  multiFileOptimizations this1 @ [(opt, optimization)]\<rparr>
                           else this1)
              in instantiate rest this2 rt'))
      else instantiate rest this rt)"

definition new_Optimizer ::
  "('m, 'c, 't, 'a) env \<Rightarrow> ref \<Rightarrow> ('m, 'c, 't) runtime \<Rightarrow>
   (error + ('m, 'c, 't, 'a) Optimizer) \<times> ('m, 'c, 't) runtime" where
  "new_Optimizer env opts rt =
     (let target = next_ref rt;
          rt1 = rt\<lparr>objects := (objects rt)(target := []), next_ref := Suc target\<rparr>;
          rt2 = Object_assign target [DEFAULT_OPTIONS env, opts] rt1;
          this = \<lparr>sources = [], analyses = [], options = target,
                  singleFileOptimizations = [], multiFileOptimizations = []\<rparr>
      in if \<not> truthy (get_prop (objects rt2 (options this)) ''enabled'')
         then (Inr this, rt2)
         else instantiate (optimizations env) this rt2)"

definition addSource ::
  "CssFile \<Rightarrow> ('m, 'c, 't, 'a) Optimizer \<Rightarrow> ('m, 'c, 't, 'a) Optimizer" where
  "addSource file this = this\<lparr>sources := sources this @ [file]\<rparr>"

definition addAnalysis ::
  "'a \<Rightarrow> ('m, 'c, 't, 'a) Optimizer \<Rightarrow> ('m, 'c, 't, 'a) Optimizer" where
  "addAnalysis analysis this = this\<lparr>analyses := analyses this @ [analysis]\<rparr>"

subsection \<open>Parsing\<close>

text \<open>
  \<open>parseCss\<close> returns a promise. For a raw text the parser is invoked at once and the
  promise settles later with what the parser delivers; the file name is captured for
  the file object built then. For a parsed file the promise is already resolved with
  the file itself.
\<close>

datatype 't parse_promise =
    ParserPending "error + 't" "string option"
  | Resolved CssFile

definition parseCss ::
  "('m, 'c, 't, 'a) env \<Rightarrow> CssFile \<Rightarrow> ('m, 'c, 't) runtime \<Rightarrow>
   't parse_promise \<times> ('m, 'c, 't) runtime" where
  "parseCss env file rt =
     (case content file of
        Raw text \<Rightarrow>
          (ParserPending (postcss_process env text (filename file) (sourceMap file)) (filename file),
           rt\<lparr>trace := trace rt @ [ParserCall text]\<rparr>)
      | Parsed r \<Rightarrow> (Resolved file, rt))"

text \<open>
  Settling the promise: a parser error rejects it; a parser result is a new object, and
  the promise resolves with a new file object that holds it and the file name.
\<close>

definition settle_parse ::
  "'t parse_promise \<Rightarrow> ('m, 'c, 't) runtime \<Rightarrow> (error + CssFile) \<times> ('m, 'c, 't) runtime" where
  "settle_parse p rt =
     (case p of
        ParserPending (Inl e) fname \<Rightarrow> (Inl e, rt)
      | ParserPending (Inr result) fname \<Rightarrow>
          (let r = next_ref rt in
           (Inr \<lparr>content = Parsed r, filename = fname, sourceMap = None\<rparr>,
            rt\<lparr>results := (results rt)(r := result), next_ref := Suc r\<rparr>))
      | Resolved file \<Rightarrow> (Inr file, rt))"

subsection \<open>Phase 1: the single-file passes\<close>

text \<open>
  The loop over the single-file passes in the callback of \<open>optimizeSingleFile\<close>. A pass
  that throws ends the loop. A pass object without the method cannot be in the group;
  calling the missing method would throw a type error.
\<close>

fun run_single ::
  "(string \<times> ('m, 'c, 't, 'a) Optimization) list \<Rightarrow> 'm \<Rightarrow> CssFile \<Rightarrow> 'a list \<Rightarrow> 'c \<Rightarrow>
   ('m, 'c, 't) runtime \<Rightarrow> error option \<times> 'm \<times> 'c \<times> ('m, 'c, 't) runtime" where
  "run_single [] m file an c rt = (None, m, c, rt)"
| "run_single ((opt, optimization) # rest) m file an c rt =
     (case optimizeSingleFile optimization of
        None \<Rightarrow> (Some (Thrown ''TypeError''), m, c, rt)
      | Some method \<Rightarrow>
          (case method m file an c (results rt) of
             (thrown, m', c', h') \<Rightarrow>
               (let rt' = rt\<lparr>results := h',
                             trace := trace rt @ [SingleFileCall opt file m c m' c']\<rparr>
                in case thrown of
                     Some e \<Rightarrow> (Some e, m', c', rt')
                   | None \<Rightarrow> run_single rest m' file an c' rt')))"

text \<open>
  \<open>optimizeSingleFile\<close> of the optimizer calls \<open>parseCss\<close> and chains its callback to
  the promise. The call is \<open>parseCss\<close>; the function below is what happens when the
  promise settles: a rejection is passed on, a parsed file goes through the single-file
  passes and is the value of the promise.
\<close>

definition Optimizer_optimizeSingleFile ::
  "('m, 'c, 't, 'a) Optimizer \<Rightarrow> 'm \<Rightarrow> 't parse_promise \<Rightarrow> 'c \<Rightarrow> ('m, 'c, 't) runtime \<Rightarrow>
   (error + CssFile) \<times> 'm \<times> 'c \<times> ('m, 'c, 't) runtime" where
  "Optimizer_optimizeSingleFile this styleMapping promise cache rt =
     (case settle_parse promise rt of
        (Inl e, rt1) \<Rightarrow> (Inl e, styleMapping, cache, rt1)
      | (Inr file, rt1) \<Rightarrow>
          (case run_single (singleFileOptimizations this) styleMapping file (analyses this)
                  cache rt1 of
             (Some e, m', c', rt2) \<Rightarrow> (Inl e, m', c', rt2)
           | (None, m', c', rt2) \<Rightarrow> (Inr file, m', c', rt2)))"

text \<open>\<open>this.sources.map(...)\<close>: one promise per source, created in the order of the sources.\<close>

fun start_all ::
  "('m, 'c, 't, 'a) env \<Rightarrow> CssFile list \<Rightarrow> ('m, 'c, 't) runtime \<Rightarrow>
   't parse_promise list \<times> ('m, 'c, 't) runtime" where
  "start_all env [] rt = ([], rt)"
| "start_all env (source # rest) rt =
     (case parseCss env source rt of
        (p, rt1) \<Rightarrow> (case start_all env rest rt1 of (ps, rt2) \<Rightarrow> (p # ps, rt2)))"

text \<open>
  The promises settle in an order the optimizer does not choose. A schedule is any list
  of indices: the promises it names settle in its order, the ones it does not name
  settle after them in the order of the sources.
\<close>

definition settle_order :: "nat \<Rightarrow> nat list \<Rightarrow> nat list" where
  "settle_order n sched = remdups [i \<leftarrow> sched. i < n] @ [i \<leftarrow> [0..<n]. i \<notin> set sched]"

text \<open>
  \<open>Promise.all\<close>: every promise settles and its callback runs, whatever the others did.
  The first rejection is the rejection of the whole; the values are kept at the index
  of their promise.
\<close>

fun settle_all ::
  "('m, 'c, 't, 'a) Optimizer \<Rightarrow> 't parse_promise list \<Rightarrow> nat list \<Rightarrow>
   error option \<times> CssFile option list \<times> 'm \<times> 'c \<times> ('m, 'c, 't) runtime \<Rightarrow>
   error option \<times> CssFile option list \<times> 'm \<times> 'c \<times> ('m, 'c, 't) runtime" where
  "settle_all this promises [] acc = acc"
| "settle_all this promises (i # rest) (rejected, vals, m, c, rt) =
     (case Optimizer_optimizeSingleFile this m (promises ! i) c rt of
        (Inl e, m', c', rt') \<Rightarrow>
          settle_all this promises rest
            ((case rejected of None \<Rightarrow> Some e | Some e0 \<Rightarrow> Some e0), vals, m', c', rt')
      | (Inr file, m', c', rt') \<Rightarrow>
          settle_all this promises rest (rejected, vals[i := Some file], m', c', rt'))"

fun values_of :: "'x option list \<Rightarrow> 'x list" where
  "values_of [] = []"
| "values_of (None # vs) = values_of vs"
| "values_of (Some v # vs) = v # values_of vs"

subsection \<open>Phase 2: the cross-file passes\<close>

fun run_multi ::
  "(string \<times> ('m, 'c, 't, 'a) Optimization) list \<Rightarrow> 'm \<Rightarrow> CssFile list \<Rightarrow> 'a list \<Rightarrow> 'c \<Rightarrow>
   ('m, 'c, 't) runtime \<Rightarrow> error option \<times> 'm \<times> 'c \<times> ('m, 'c, 't) runtime" where
  "run_multi [] m files an c rt = (None, m, c, rt)"
| "run_multi ((opt, optimization) # rest) m files an c rt =
     (case optimizeAllFiles optimization of
        None \<Rightarrow> (Some (Thrown ''TypeError''), m, c, rt)
      | Some method \<Rightarrow>
          (case method m files an c (results rt) of
             (thrown, m', c', h') \<Rightarrow>
               (let rt' = rt\<lparr>results := h',
                             trace := trace rt @ [AllFilesCall opt files m c m' c']\<rparr>
                in case thrown of
                     Some e \<Rightarrow> (Some e, m', c', rt')
                   | None \<Rightarrow> run_multi rest m' files an c' rt')))"

definition Optimizer_optimizeAllFiles ::
  "('m, 'c, 't, 'a) Optimizer \<Rightarrow> 'm \<Rightarrow> CssFile list \<Rightarrow> 'c \<Rightarrow> ('m, 'c, 't) runtime \<Rightarrow>
   (error + CssFile list) \<times> 'm \<times> 'c \<times> ('m, 'c, 't) runtime" where
  "Optimizer_optimizeAllFiles this styleMapping files cache rt =
     (case run_multi (multiFileOptimizations this) styleMapping files (analyses this) cache rt of
        (Some e, m', c', rt') \<Rightarrow> (Inl e, m', c', rt')
      | (None, m', c', rt') \<Rightarrow> (Inr files, m', c', rt'))"

subsection \<open>Assembling the output\<close>

text \<open>
  The concatenation object: \<open>add\<close> puts the separator before every part but the first.
\<close>

record Concat =
  generateSourceMap :: bool
  fileName :: string
  separator :: string
  contentParts :: "string list"
  added :: "(string \<times> string \<times> string) list"

definition new_Concat :: "bool \<Rightarrow> string \<Rightarrow> string \<Rightarrow> Concat" where
  "new_Concat gen name sep =
     \<lparr>generateSourceMap = gen, fileName = name, separator = sep, contentParts = [], added = []\<rparr>"

definition Concat_add :: "string \<Rightarrow> string \<Rightarrow> string \<Rightarrow> Concat \<Rightarrow> Concat" where
  "Concat_add filePath text smap out =
     out\<lparr>contentParts :=
           (if contentParts out \<noteq> [] then contentParts out @ [separator out]
            else contentParts out) @ [text],
         added := added out @ [(filePath, text, smap)]\<rparr>"

text \<open>\<open>file.filename || "optimized.css"\<close>\<close>

definition filename_or_default :: "CssFile \<Rightarrow> string" where
  "filename_or_default file =
     (case filename file of
        None \<Rightarrow> ''optimized.css''
      | Some name \<Rightarrow> if name = [] then ''optimized.css'' else name)"

text \<open>
  The loop that prints every file and adds it to the output. A file whose content is
  not a parser result has no rule tree to print, and the call on it throws.
\<close>

fun add_files ::
  "('m, 'c, 't, 'a) env \<Rightarrow> string \<Rightarrow> (ref \<Rightarrow> 't) \<Rightarrow> CssFile list \<Rightarrow> Concat \<Rightarrow> error + Concat" where
  "add_files env outputFilename h [] out = Inr out"
| "add_files env outputFilename h (file # rest) out =
     (case content file of
        Raw text \<Rightarrow> Inl (Thrown ''TypeError'')
      | Parsed r \<Rightarrow>
          (case toResult env (h r) outputFilename of
             (css, smap) \<Rightarrow>
               add_files env outputFilename h rest
                 (Concat_add (filename_or_default file) css smap out)))"

record 'm OptimizationResult =
  "output" :: CssFile
  styleMapping :: 'm

definition optimize ::
  "('m, 'c, 't, 'a) env \<Rightarrow> ('m, 'c, 't, 'a) Optimizer \<Rightarrow> string \<Rightarrow> nat list \<Rightarrow>
   ('m, 'c, 't) runtime \<Rightarrow> (error + 'm OptimizationResult) \<times> ('m, 'c, 't) runtime" where
  "optimize env this outputFilename sched rt =
     (let styleMapping = new_StyleMapping env;
          cache = new_SelectorCache env
      in case start_all env (sources this) rt of
        (promises, rt0) \<Rightarrow>
          (case settle_all this promises (settle_order (length promises) sched)
                  (None, replicate (length promises) None, styleMapping, cache, rt0) of
             (Some e, vals, m1, c1, rt1) \<Rightarrow> (Inl e, rt1)
           | (None, vals, m1, c1, rt1) \<Rightarrow>
               (case Optimizer_optimizeAllFiles this m1 (values_of vals) c1 rt1 of
                  (Inl e, m2, c2, rt2) \<Rightarrow> (Inl e, rt2)
                | (Inr files, m2, c2, rt2) \<Rightarrow>
                    (case add_files env outputFilename (results rt2) files
                            (new_Concat True outputFilename [CHR 0x0A]) of
                       Inl e \<Rightarrow> (Inl e, rt2)
                     | Inr out \<Rightarrow>
                         (Inr \<lparr>output =
                                 \<lparr>content = Raw (concat (contentParts out)),
                                  filename = Some outputFilename,
                                  sourceMap = merged_sourceMap env outputFilename (added out)\<rparr>,
                               styleMapping = m2\<rparr>,
                          rt2)))))"

section \<open>Notions used to state the properties\<close>

text \<open>A call without the states it was handed: which collaborator, on what.\<close>

datatype call = Construct string | Parse string | Single string CssFile
  | Multi string "CssFile list"

fun call_of :: "('m, 'c) event \<Rightarrow> call" where
  "call_of (NewOptimization k) = Construct k"
| "call_of (ParserCall text) = Parse text"
| "call_of (SingleFileCall k fl m c m' c') = Single k fl"
| "call_of (AllFilesCall k fls m c m' c') = Multi k fls"

text \<open>
  Following a style mapping and a selector cache through a trace: every pass call must
  be handed the pair as the call before it left it; the result is the pair as the last
  call left it.
\<close>

fun thread :: "'m \<times> 'c \<Rightarrow> ('m, 'c) event list \<Rightarrow> ('m \<times> 'c) option" where
  "thread cur [] = Some cur"
| "thread cur (SingleFileCall k fl m c m' c' # es) =
     (if (m, c) = cur then thread (m', c') es else None)"
| "thread cur (AllFilesCall k fls m c m' c' # es) =
     (if (m, c) = cur then thread (m', c') es else None)"
| "thread cur (NewOptimization k # es) = thread cur es"
| "thread cur (ParserCall text # es) = thread cur es"

text \<open>The promise that \<open>parseCss\<close> returns for a file, and the raw texts among files.\<close>

definition promise_of :: "('m, 'c, 't, 'a) env \<Rightarrow> CssFile \<Rightarrow> 't parse_promise" where
  "promise_of env fl =
     (case content fl of
        Raw text \<Rightarrow>
          ParserPending (postcss_process env text (filename fl) (sourceMap fl)) (filename fl)
      | Parsed r \<Rightarrow> Resolved fl)"

fun raw_texts :: "CssFile list \<Rightarrow> string list" where
  "raw_texts [] = []"
| "raw_texts (fl # rest) =
     (case content fl of Raw text \<Rightarrow> text # raw_texts rest | Parsed r \<Rightarrow> raw_texts rest)"

text \<open>
  What the promise of a source resolves with: a parsed source resolves with itself, a
  parser result with a file object that holds the result and the captured file name.
\<close>

definition settled :: "'t parse_promise \<Rightarrow> CssFile \<Rightarrow> bool" where
  "settled p fl =
     (case p of
        Resolved fl' \<Rightarrow> fl = fl'
      | ParserPending (Inr t) fname \<Rightarrow>
          (case content fl of Parsed r \<Rightarrow> filename fl = fname \<and> sourceMap fl = None
                            | Raw text \<Rightarrow> False)
      | ParserPending (Inl e) fname \<Rightarrow> False)"


text \<open>
  The first half of \<open>optimize\<close>: the promises of all sources are created, then settled in
  the order of the schedule, starting from a new style mapping and a new selector cache.
\<close>

definition phase1 ::
  "('m, 'c, 't, 'a) env \<Rightarrow> ('m, 'c, 't, 'a) Optimizer \<Rightarrow> nat list \<Rightarrow> ('m, 'c, 't) runtime \<Rightarrow>
   error option \<times> CssFile option list \<times> 'm \<times> 'c \<times> ('m, 'c, 't) runtime" where
  "phase1 env this sched rt =
     settle_all this (map (promise_of env) (sources this))
       (settle_order (length (sources this)) sched)
       (None, replicate (length (sources this)) None, new_StyleMapping env, new_SelectorCache env,
        rt\<lparr>trace := trace rt @ map ParserCall (raw_texts (sources this))\<rparr>)"




text \<open>A separator between the elements of a list, as the concatenation puts it.\<close>

fun intersperse :: "'x \<Rightarrow> 'x list \<Rightarrow> 'x list" where
  "intersperse s [] = []"
| "intersperse s [x] = [x]"
| "intersperse s (x # y # ys) = x # s # intersperse s (y # ys)"

text \<open>
  The rule tree of a source before any pass: what the parser makes of its text, or what
  its handle refers to.
\<close>

definition source_tree :: "('m, 'c, 't, 'a) env \<Rightarrow> (ref \<Rightarrow> 't) \<Rightarrow> CssFile \<Rightarrow> 't option" where
  "source_tree env h src =
     (case content src of
        Raw text \<Rightarrow>
          (case postcss_process env text (filename src) (sourceMap src) of
             Inl e \<Rightarrow> None | Inr t \<Rightarrow> Some t)
      | Parsed r \<Rightarrow> Some (h r))"

text \<open>
  The file object that the promise of the i-th source resolves with, and the handle in
  it. A parsed source resolves with itself. The parser result of a raw source is stored
  at the next free address when its promise settles, that is after the results of the
  raw sources that settled before it; the file object holds that address and the file
  name of the source.
\<close>

definition is_raw :: "CssFile \<Rightarrow> bool" where
  "is_raw fl = (case content fl of Raw raw \<Rightarrow> True | Parsed r \<Rightarrow> False)"

definition resolved_ref :: "CssFile list \<Rightarrow> nat list \<Rightarrow> ref \<Rightarrow> nat \<Rightarrow> ref" where
  "resolved_ref srcs order nr i =
     (case content (srcs ! i) of
        Parsed r \<Rightarrow> r
      | Raw raw \<Rightarrow>
          nr + length (filter (\<lambda>j. is_raw (srcs ! j)) (takeWhile (\<lambda>j. j \<noteq> i) order)))"

definition resolved :: "CssFile list \<Rightarrow> nat list \<Rightarrow> ref \<Rightarrow> nat \<Rightarrow> CssFile" where
  "resolved srcs order nr i =
     (case content (srcs ! i) of
        Parsed r \<Rightarrow> srcs ! i
      | Raw raw \<Rightarrow>
          \<lparr>content = Parsed (resolved_ref srcs order nr i), filename = filename (srcs ! i),
           sourceMap = None\<rparr>)"

text \<open>
  What a successful run does to the style mapping, the selector cache and the rule
  trees. When the promise of a source settles, the parser result of a raw source is
  stored at its handle, then every pass of the single-file group is applied once to the
  file, in the order of the group. When all have settled, every pass of the cross-file
  group is applied once to the list of all files, in source order.
\<close>

definition load ::
  "('m, 'c, 't, 'a) env \<Rightarrow> CssFile \<Rightarrow> ref \<Rightarrow> (ref \<Rightarrow> 't) \<Rightarrow> (ref \<Rightarrow> 't)" where
  "load env src r h =
     (case content src of
        Raw raw \<Rightarrow>
          (case postcss_process env raw (filename src) (sourceMap src) of
             Inl e \<Rightarrow> h | Inr t \<Rightarrow> h(r := t))
      | Parsed r' \<Rightarrow> h)"

definition invoke_single ::
  "('m, 'c, 't, 'a) Optimization \<Rightarrow> CssFile \<Rightarrow> 'a list \<Rightarrow>
   'm \<times> 'c \<times> (ref \<Rightarrow> 't) \<Rightarrow> 'm \<times> 'c \<times> (ref \<Rightarrow> 't)" where
  "invoke_single p fl an st =
     (case optimizeSingleFile p of
        None \<Rightarrow> st
      | Some mth \<Rightarrow> (case st of (m, c, h) \<Rightarrow> snd (mth m fl an c h)))"

definition invoke_multi ::
  "('m, 'c, 't, 'a) Optimization \<Rightarrow> CssFile list \<Rightarrow> 'a list \<Rightarrow>
   'm \<times> 'c \<times> (ref \<Rightarrow> 't) \<Rightarrow> 'm \<times> 'c \<times> (ref \<Rightarrow> 't)" where
  "invoke_multi p fls an st =
     (case optimizeAllFiles p of
        None \<Rightarrow> st
      | Some mth \<Rightarrow> (case st of (m, c, h) \<Rightarrow> snd (mth m fls an c h)))"

definition single_file_effect ::
  "('m, 'c, 't, 'a) env \<Rightarrow> (string \<times> ('m, 'c, 't, 'a) Optimization) list \<Rightarrow> 'a list \<Rightarrow>
   CssFile \<Rightarrow> ref \<Rightarrow> CssFile \<Rightarrow>
   'm \<times> 'c \<times> (ref \<Rightarrow> 't) \<Rightarrow> 'm \<times> 'c \<times> (ref \<Rightarrow> 't)" where
  "single_file_effect env ps an src r fl st =
     (case st of (m, c, h) \<Rightarrow>
        fold (\<lambda>kp. invoke_single (snd kp) fl an) ps (m, c, load env src r h))"

definition pipeline_effect ::
  "('m, 'c, 't, 'a) env \<Rightarrow> (string \<times> ('m, 'c, 't, 'a) Optimization) list \<Rightarrow>
   (string \<times> ('m, 'c, 't, 'a) Optimization) list \<Rightarrow> 'a list \<Rightarrow> CssFile list \<Rightarrow>
   nat list \<Rightarrow> ref \<Rightarrow> (ref \<Rightarrow> 't) \<Rightarrow> 'm \<times> 'c \<times> (ref \<Rightarrow> 't)" where
  "pipeline_effect env ps qs an srcs sched nr h =
     (let order = settle_order (length srcs) sched;
          fls = map (resolved srcs order nr) [0..<length srcs]
      in fold (\<lambda>kp. invoke_multi (snd kp) fls an) qs
           (fold (\<lambda>i. single_file_effect env ps an (srcs ! i) (resolved_ref srcs order nr i)
                         (resolved srcs order nr i))
                 order
                 (new_StyleMapping env, new_SelectorCache env, h)))"

section \<open>A small configuration to run the optimizer on\<close>

text \<open>
  Rule trees are texts, the style mapping is the list of the entries recorded, the
  selector cache counts its queries. A pass leaves a mark on each of the three. The
  parser rejects the text \<open>}\<close>. Three kinds of passes: one for single files, one for all
  files, one for both; the constructor of the last rejects a setting it does not know.
\<close>

definition mark_single :: "string \<Rightarrow> (string list, nat, string, unit) single_method" where
  "mark_single tag m fl an c h =
     (None, m @ [tag], Suc c,
      (case content fl of Parsed r \<Rightarrow> h(r := h r @ tag) | Raw text \<Rightarrow> h))"

definition mark_multi :: "string \<Rightarrow> (string list, nat, string, unit) multi_method" where
  "mark_multi tag m fls an c h =
     (None, m @ [tag], Suc c,
      fold (\<lambda>fl h. case content fl of Parsed r \<Rightarrow> h(r := h r @ tag) | Raw text \<Rightarrow> h) fls h)"

definition demo_env :: "(string list, nat, string, unit) env" where
  "demo_env =
     \<lparr>DEFAULT_OPTIONS = 0,
      optimizations =
        [(''removeUnusedStyles'',
            \<lambda>opts. Inr \<lparr>optimizeSingleFile = Some (mark_single ''/*unused*/''),
                         optimizeAllFiles = None\<rparr>),
         (''mergeDeclarations'',
            \<lambda>opts. Inr \<lparr>optimizeSingleFile = None,
                         optimizeAllFiles = Some (mark_multi ''/*merged*/'')\<rparr>),
         (''rewriteIdents'',
            \<lambda>opts. if get_prop opts ''rewriteIdents'' = Str ''everything''
                    then Inl (Thrown ''unknown rewrite mode'')
                    else Inr \<lparr>optimizeSingleFile = Some (mark_single ''/*idents*/''),
                              optimizeAllFiles = Some (mark_multi ''/*all-idents*/'')\<rparr>)],
      new_StyleMapping = [],
      new_SelectorCache = 0,
      postcss_process =
        (\<lambda>text from prev. if text = ''}'' then Inl (CssSyntaxError ''Unexpected }'')
                           else Inr text),
      toResult = (\<lambda>t to. (t, to)),
      merged_sourceMap = (\<lambda>to parts. Some to)\<rparr>"

definition demo_objects :: "ref \<Rightarrow> jsobj" where
  "demo_objects =
     (\<lambda>a. [])
       (0 := [(''enabled'', Bool True), (''removeUnusedStyles'', Bool True),
              (''mergeDeclarations'', Bool True), (''rewriteIdents'', Bool True)],
        1 := [(''mergeDeclarations'', Bool False)],
        2 := [(''enabled'', Bool False)],
        3 := [(''colour'', Num 42), (''removeUnusedStyles'', Str ''sometimes'')],
        4 := [(''rewriteIdents'', Str ''everything'')])"

definition demo_rt :: "(string list, nat, string) runtime" where
  "demo_rt =
     \<lparr>objects = demo_objects, results = (\<lambda>a. [])(5 := ''.pre{}''), next_ref = 6, trace = []\<rparr>"

definition a_css :: CssFile where
  "a_css = \<lparr>content = Raw ''.a{}'', filename = Some ''a.css'', sourceMap = None\<rparr>"

definition b_css :: CssFile where
  "b_css = \<lparr>content = Raw ''.b{}'', filename = None, sourceMap = None\<rparr>"

definition pre_css :: CssFile where
  "pre_css = \<lparr>content = Parsed 5, filename = Some ''pre.css'', sourceMap = None\<rparr>"

definition bad_css :: CssFile where
  "bad_css = \<lparr>content = Raw ''}'', filename = Some ''bad.css'', sourceMap = None\<rparr>"

text \<open>
  The optimizer that the constructor builds from the options at address 1 (one kind
  switched off), the runtime it leaves, the optimizer it builds when optimization is
  disabled, two sources added, a schedule in which the second source settles first, and
  the file object that the first source is parsed into.
\<close>

definition both_passes :: "(string list, nat, string, unit) Optimization" where
  "both_passes = \<lparr>optimizeSingleFile = Some (mark_single ''/*idents*/''),
                   optimizeAllFiles = Some (mark_multi ''/*all-idents*/'')\<rparr>"

definition single_pass :: "(string list, nat, string, unit) Optimization" where
  "single_pass = \<lparr>optimizeSingleFile = Some (mark_single ''/*unused*/''),
                   optimizeAllFiles = None\<rparr>"

definition demo_base :: "(string list, nat, string, unit) Optimizer" where
  "demo_base =
     \<lparr>sources = [], analyses = [], options = 6,
      singleFileOptimizations = [(''removeUnusedStyles'', single_pass), (''rewriteIdents'', both_passes)],
      multiFileOptimizations = [(''rewriteIdents'', both_passes)]\<rparr>"

definition demo_off :: "(string list, nat, string, unit) Optimizer" where
  "demo_off =
     \<lparr>sources = [], analyses = [], options = 6,
      singleFileOptimizations = [], multiFileOptimizations = []\<rparr>"

definition demo_rt1 :: "(string list, nat, string) runtime" where
  "demo_rt1 =
     \<lparr>objects = demo_objects
        (6 := [(''enabled'', Bool True), (''removeUnusedStyles'', Bool True),
               (''mergeDeclarations'', Bool False), (''rewriteIdents'', Bool True)]),
      results = (\<lambda>a. [])(5 := ''.pre{}''), next_ref = 7,
      trace = [NewOptimization ''removeUnusedStyles'', NewOptimization ''rewriteIdents'']\<rparr>"

definition demo_optimizer :: "(string list, nat, string, unit) Optimizer" where
  "demo_optimizer = fold addSource [a_css, pre_css] demo_base"

definition demo_sched :: "nat list" where
  "demo_sched = [1, 0]"

definition parsed_a :: CssFile where
  "parsed_a = \<lparr>content = Parsed 7, filename = Some ''a.css'', sourceMap = None\<rparr>"






section \<open>Configuration\<close>

lemmas demo_simps = new_Optimizer_def demo_env_def demo_rt_def demo_objects_def Let_def
  assign_from_def Object_keys_def get_prop_def optimizesSingleFiles_def optimizesAllFiles_def

lemma map_of_set_prop: "map_of (set_prop k v obj) = (map_of obj)(k \<mapsto> v)"
  by (induction obj) (auto simp: fun_eq_iff)

lemma map_of_fold_set:
  "map_of (fold (\<lambda>k t. set_prop k (f k) t) ks tgt) k =
     (if k \<in> set ks then Some (f k) else map_of tgt k)"
  by (induction ks arbitrary: tgt) (auto simp: map_of_set_prop)

lemma map_of_assign_from:
  "map_of (assign_from src tgt) k =
     (case map_of src k of Some v \<Rightarrow> Some v | None \<Rightarrow> map_of tgt k)"
proof -
  have "k \<in> set (map fst src) \<longleftrightarrow> map_of src k \<noteq> None"
    by (simp add: map_of_eq_None_iff)
  then show ?thesis
    unfolding assign_from_def Object_keys_def
    by (auto simp: map_of_fold_set get_prop_def split: option.splits)
qed

lemma Object_assign_frame:
  "results (Object_assign t ss rt) = results rt"
  "next_ref (Object_assign t ss rt) = next_ref rt"
  "trace (Object_assign t ss rt) = trace rt"
  "a \<noteq> t \<Longrightarrow> objects (Object_assign t ss rt) a = objects rt a"
  by (induction ss arbitrary: rt) auto

lemma instantiate_frame:
  "instantiate tab this rt = (r, rt') \<Longrightarrow>
     objects rt' = objects rt \<and> results rt' = results rt \<and> next_ref rt' = next_ref rt"
  by (induction tab this rt rule: instantiate.induct)
     (auto simp: Let_def split: if_splits sum.splits)

lemma instantiate_keeps:
  "instantiate tab this rt = (Inr this', rt') \<Longrightarrow>
     options this' = options this \<and> sources this' = sources this \<and>
     analyses this' = analyses this"
  by (induction tab this rt rule: instantiate.induct)
     (auto simp: Let_def split: if_splits sum.splits)

lemma new_Optimizer_options:
  assumes "new_Optimizer env opts rt = (Inr this, rt')"
  shows "options this = next_ref rt"
  using assms unfolding new_Optimizer_def
  by (auto simp: Let_def split: if_splits dest: instantiate_keeps)

text \<open>
  C9. The effective options are the supplied options merged over the defaults: a key of
  the supplied object has the supplied value, any other key has what the defaults have
  for it. The merge writes to a new object only: the supplied object and the defaults
  are as they were.
\<close>

theorem options_merged_over_defaults:
  assumes run: "new_Optimizer env opts rt = (r, rt')"
      and live: "opts < next_ref rt" "DEFAULT_OPTIONS env < next_ref rt"
  shows "(\<forall>this. r = Inr this \<longrightarrow>
            (\<forall>k. map_of (objects rt' (options this)) k =
                   (if k \<in> set (Object_keys (objects rt opts))
                    then map_of (objects rt opts) k
                    else map_of (objects rt (DEFAULT_OPTIONS env)) k)))
         \<and> objects rt' opts = objects rt opts
         \<and> objects rt' (DEFAULT_OPTIONS env) = objects rt (DEFAULT_OPTIONS env)"
proof -
  define t where "t = next_ref rt"
  define rt1 where "rt1 = rt\<lparr>objects := (objects rt)(t := []), next_ref := Suc t\<rparr>"
  define rt2 where "rt2 = Object_assign t [DEFAULT_OPTIONS env, opts] rt1"
  have ne: "DEFAULT_OPTIONS env \<noteq> t" "opts \<noteq> t" using live by (auto simp: t_def)
  have obj2: "objects rt' = objects rt2"
    using run unfolding new_Optimizer_def
    by (auto simp: Let_def t_def rt1_def rt2_def split: if_splits dest: instantiate_frame)
  have other: "a \<noteq> t \<Longrightarrow> objects rt2 a = objects rt a" for a
    unfolding rt2_def by (simp add: Object_assign_frame rt1_def del: Object_assign.simps)
  have tgt: "objects rt2 t =
      assign_from (objects rt opts) (assign_from (objects rt (DEFAULT_OPTIONS env)) [])"
    unfolding rt2_def using ne by (simp add: rt1_def)
  have keys: "k \<in> set (Object_keys (objects rt opts)) \<longleftrightarrow> map_of (objects rt opts) k \<noteq> None"
    for k by (simp add: Object_keys_def map_of_eq_None_iff)
  have eff: "map_of (objects rt2 t) k =
               (if k \<in> set (Object_keys (objects rt opts))
                then map_of (objects rt opts) k
                else map_of (objects rt (DEFAULT_OPTIONS env)) k)" for k
    unfolding tgt keys by (auto simp: map_of_assign_from split: option.splits)
  have "options this = t" if "r = Inr this" for this
    using run that new_Optimizer_options t_def by blast
  then show ?thesis using eff other ne obj2 by auto
qed

theorem options_merged_over_defaults_witness:
  "map_of (objects (snd (new_Optimizer demo_env 1 demo_rt)) 6) ''mergeDeclarations''
     = Some (Bool False)
   \<and> map_of (objects (snd (new_Optimizer demo_env 1 demo_rt)) 6) ''enabled'' = Some (Bool True)
   \<and> objects (snd (new_Optimizer demo_env 1 demo_rt)) 1 = [(''mergeDeclarations'', Bool False)]
   \<and> objects (snd (new_Optimizer demo_env 1 demo_rt)) 0 = demo_objects 0"
proof -
  obtain this where ok: "fst (new_Optimizer demo_env 1 demo_rt) = Inr this"
    by (simp add: demo_simps)
  have run: "new_Optimizer demo_env 1 demo_rt = (Inr this, snd (new_Optimizer demo_env 1 demo_rt))"
    using ok by (metis prod.collapse)
  have t: "options this = 6"
    using new_Optimizer_options[OF run] by (simp add: demo_rt_def)
  have live: "1 < next_ref demo_rt" "DEFAULT_OPTIONS demo_env < next_ref demo_rt"
    by (simp_all add: demo_rt_def demo_env_def)
  from options_merged_over_defaults[OF run live] t
  show ?thesis
    by (simp add: demo_rt_def demo_objects_def demo_env_def Object_keys_def)
qed

section \<open>The two phases\<close>

lemma thread_append:
  "thread cur (xs @ ys) = (case thread cur xs of None \<Rightarrow> None | Some mid \<Rightarrow> thread mid ys)"
  by (induction cur xs rule: thread.induct) auto

lemma start_all_eq:
  "start_all env srcs rt =
     (map (promise_of env) srcs, rt\<lparr>trace := trace rt @ map ParserCall (raw_texts srcs)\<rparr>)"
  by (induction srcs arbitrary: rt)
     (auto simp: parseCss_def promise_of_def split: content.splits)

lemma thread_parser_calls: "thread cur (map ParserCall ts) = Some cur"
  by (induction ts) auto

lemma run_single_shape:
  "run_single ps m f an c rt = (thr, m', c', rt') \<Longrightarrow>
     objects rt' = objects rt \<and> next_ref rt' = next_ref rt \<and>
     (\<exists>evs j. trace rt' = trace rt @ evs \<and> j \<le> length ps \<and>
        map call_of evs = map (\<lambda>kp. Single (fst kp) f) (take j ps) \<and>
        (thr = None \<longrightarrow> j = length ps) \<and>
        thread (m, c) evs = Some (m', c'))"
proof (induction ps arbitrary: m c rt)
  case Nil
  then show ?case by auto
next
  case (Cons kp rest)
  obtain k p where kp: "kp = (k, p)" by (cases kp)
  show ?case
  proof (cases "optimizeSingleFile p")
    case None
    with Cons.prems kp show ?thesis by (auto intro: exI[of _ 0])
  next
    case (Some mth)
    obtain t m1 c1 h1 where meth: "mth m f an c (results rt) = (t, m1, c1, h1)"
      by (cases "mth m f an c (results rt)") auto
    define ev where "ev = SingleFileCall k f m c m1 c1"
    define rt1 where "rt1 = rt\<lparr>results := h1, trace := trace rt @ [ev]\<rparr>"
    show ?thesis
    proof (cases t)
      case None
      from Cons.prems kp Some meth None
      have rec: "run_single rest m1 f an c1 rt1 = (thr, m', c', rt')"
        by (simp add: rt1_def ev_def)
      from Cons.IH[OF rec] obtain evs j where
        fr: "objects rt' = objects rt1" "next_ref rt' = next_ref rt1" and
        tr: "trace rt' = trace rt1 @ evs" and j: "j \<le> length rest" and
        cs: "map call_of evs = map (\<lambda>kp. Single (fst kp) f) (take j rest)" and
        fin: "thr = None \<longrightarrow> j = length rest" and
        th: "thread (m1, c1) evs = Some (m', c')"
        by blast
      have "trace rt' = trace rt @ (ev # evs)" using tr by (simp add: rt1_def)
      moreover have "Suc j \<le> length (kp # rest)" using j by simp
      moreover have "map call_of (ev # evs) = map (\<lambda>kp. Single (fst kp) f) (take (Suc j) (kp # rest))"
        using cs by (simp add: ev_def kp)
      moreover have "thr = None \<longrightarrow> Suc j = length (kp # rest)" using fin by simp
      moreover have "thread (m, c) (ev # evs) = Some (m', c')" using th by (simp add: ev_def)
      ultimately show ?thesis using fr by (auto simp: rt1_def)
    next
      case (Some e)
      have "trace rt' = trace rt @ [ev]" "thr = Some e" "m' = m1" "c' = c1"
           "objects rt' = objects rt" "next_ref rt' = next_ref rt"
        using Cons.prems kp \<open>optimizeSingleFile p = Some mth\<close> meth Some
        by (auto simp: ev_def)
      moreover have "map call_of [ev] = map (\<lambda>kp. Single (fst kp) f) (take 1 (kp # rest))"
        by (simp add: ev_def kp)
      moreover have "thread (m, c) [ev] = Some (m1, c1)" by (simp add: ev_def)
      ultimately show ?thesis
        by (intro conjI exI[of _ "[ev]"] exI[of _ 1]) auto
    qed
  qed
qed

lemma run_multi_shape:
  "run_multi ps m fs an c rt = (thr, m', c', rt') \<Longrightarrow>
     objects rt' = objects rt \<and> next_ref rt' = next_ref rt \<and>
     (\<exists>evs j. trace rt' = trace rt @ evs \<and> j \<le> length ps \<and>
        map call_of evs = map (\<lambda>kp. Multi (fst kp) fs) (take j ps) \<and>
        (thr = None \<longrightarrow> j = length ps) \<and>
        thread (m, c) evs = Some (m', c'))"
proof (induction ps arbitrary: m c rt)
  case Nil
  then show ?case by auto
next
  case (Cons kp rest)
  obtain k p where kp: "kp = (k, p)" by (cases kp)
  show ?case
  proof (cases "optimizeAllFiles p")
    case None
    with Cons.prems kp show ?thesis by (auto intro: exI[of _ 0])
  next
    case (Some mth)
    obtain t m1 c1 h1 where meth: "mth m fs an c (results rt) = (t, m1, c1, h1)"
      by (cases "mth m fs an c (results rt)") auto
    define ev where "ev = AllFilesCall k fs m c m1 c1"
    define rt1 where "rt1 = rt\<lparr>results := h1, trace := trace rt @ [ev]\<rparr>"
    show ?thesis
    proof (cases t)
      case None
      from Cons.prems kp Some meth None
      have rec: "run_multi rest m1 fs an c1 rt1 = (thr, m', c', rt')"
        by (simp add: rt1_def ev_def)
      from Cons.IH[OF rec] obtain evs j where
        fr: "objects rt' = objects rt1" "next_ref rt' = next_ref rt1" and
        tr: "trace rt' = trace rt1 @ evs" and j: "j \<le> length rest" and
        cs: "map call_of evs = map (\<lambda>kp. Multi (fst kp) fs) (take j rest)" and
        fin: "thr = None \<longrightarrow> j = length rest" and
        th: "thread (m1, c1) evs = Some (m', c')"
        by blast
      have "trace rt' = trace rt @ (ev # evs)" using tr by (simp add: rt1_def)
      moreover have "Suc j \<le> length (kp # rest)" using j by simp
      moreover have "map call_of (ev # evs) = map (\<lambda>kp. Multi (fst kp) fs) (take (Suc j) (kp # rest))"
        using cs by (simp add: ev_def kp)
      moreover have "thr = None \<longrightarrow> Suc j = length (kp # rest)" using fin by simp
      moreover have "thread (m, c) (ev # evs) = Some (m', c')" using th by (simp add: ev_def)
      ultimately show ?thesis using fr by (auto simp: rt1_def)
    next
      case (Some e)
      have "trace rt' = trace rt @ [ev]" "thr = Some e" "m' = m1" "c' = c1"
           "objects rt' = objects rt" "next_ref rt' = next_ref rt"
        using Cons.prems kp \<open>optimizeAllFiles p = Some mth\<close> meth Some
        by (auto simp: ev_def)
      moreover have "map call_of [ev] = map (\<lambda>kp. Multi (fst kp) fs) (take 1 (kp # rest))"
        by (simp add: ev_def kp)
      moreover have "thread (m, c) [ev] = Some (m1, c1)" by (simp add: ev_def)
      ultimately show ?thesis
        by (intro conjI exI[of _ "[ev]"] exI[of _ 1]) auto
    qed
  qed
qed

lemma settle_parse_shape:
  "settle_parse p rt = (r, rt') \<Longrightarrow>
     trace rt' = trace rt \<and> objects rt' = objects rt \<and> next_ref rt \<le> next_ref rt' \<and>
     (\<forall>fl. r = Inr fl \<longrightarrow> settled p fl) \<and>
     (\<forall>e. r = Inl e \<longrightarrow> (\<exists>fname. p = ParserPending (Inl e) fname) \<and> rt' = rt)"
  by (auto simp: settle_parse_def settled_def Let_def split: parse_promise.splits sum.splits)

lemma task_shape:
  assumes "Optimizer_optimizeSingleFile this m p c rt = (r, m', c', rt')"
  shows "objects rt' = objects rt \<and> next_ref rt \<le> next_ref rt' \<and>
     (\<exists>evs. trace rt' = trace rt @ evs \<and> thread (m, c) evs = Some (m', c') \<and>
        (\<forall>e\<in>set evs. \<exists>k fl. call_of e = Single k fl) \<and>
        (\<forall>fl. r = Inr fl \<longrightarrow> settled p fl \<and>
           map call_of evs = map (\<lambda>kp. Single (fst kp) fl) (singleFileOptimizations this)))"
proof -
  obtain r0 rt1 where sp: "settle_parse p rt = (r0, rt1)" by (cases "settle_parse p rt")
  note s = settle_parse_shape[OF sp]
  show ?thesis
  proof (cases r0)
    case (Inl e)
    with assms sp s show ?thesis
      by (auto simp: Optimizer_optimizeSingleFile_def)
  next
    case (Inr fl)
    obtain thr m1 c1 rt2 where rs:
      "run_single (singleFileOptimizations this) m fl (analyses this) c rt1 = (thr, m1, c1, rt2)"
      by (metis prod_cases4)
    from run_single_shape[OF rs] obtain evs j where
      fr: "objects rt2 = objects rt1" "next_ref rt2 = next_ref rt1" and
      tr: "trace rt2 = trace rt1 @ evs" and
      cs: "map call_of evs = map (\<lambda>kp. Single (fst kp) fl) (take j (singleFileOptimizations this))" and
      fin: "thr = None \<longrightarrow> j = length (singleFileOptimizations this)" and
      th: "thread (m, c) evs = Some (m1, c1)"
      by blast
    have all: "\<forall>e\<in>set evs. \<exists>k fl. call_of e = Single k fl"
    proof
      fix e assume "e \<in> set evs"
      then have "call_of e \<in> set (map call_of evs)" by simp
      then show "\<exists>k fl. call_of e = Single k fl" unfolding cs by auto
    qed
    have res: "m' = m1" "c' = c1" "rt' = rt2" "r = (case thr of None \<Rightarrow> Inr fl | Some e \<Rightarrow> Inl e)"
      using assms sp Inr rs by (auto simp: Optimizer_optimizeSingleFile_def split: option.splits)
    have "\<forall>fl'. r = Inr fl' \<longrightarrow> settled p fl' \<and>
           map call_of evs = map (\<lambda>kp. Single (fst kp) fl') (singleFileOptimizations this)"
      using res cs fin s Inr by (auto split: option.splits)
    then show ?thesis using res fr tr th all s by auto
  qed
qed

lemma settle_all_Cons:
  "Optimizer_optimizeSingleFile this m (ps ! i) c rt = (r, m1, c1, rt1) \<Longrightarrow>
   settle_all this ps (i # js) (rej, vals, m, c, rt) =
     settle_all this ps js
       ((case r of Inl e \<Rightarrow> (case rej of None \<Rightarrow> Some e | Some e0 \<Rightarrow> Some e0) | Inr fl \<Rightarrow> rej),
        (case r of Inl e \<Rightarrow> vals | Inr fl \<Rightarrow> vals[i := Some fl]), m1, c1, rt1)"
  by (auto split: sum.splits)

lemma settle_all_general:
  "settle_all this ps js (rej, vals, m, c, rt) = (rej', vals', m', c', rt') \<Longrightarrow>
     objects rt' = objects rt \<and> next_ref rt \<le> next_ref rt' \<and> length vals' = length vals \<and>
     (rej \<noteq> None \<longrightarrow> rej' = rej) \<and>
     (\<exists>evs. trace rt' = trace rt @ evs \<and> thread (m, c) evs = Some (m', c') \<and>
        (\<forall>e\<in>set evs. \<exists>k fl. call_of e = Single k fl))"
proof (induction js arbitrary: rej vals m c rt)
  case Nil
  then show ?case by auto
next
  case (Cons i js)
  obtain r m1 c1 rt1 where task: "Optimizer_optimizeSingleFile this m (ps ! i) c rt = (r, m1, c1, rt1)"
    by (metis prod_cases4)
  define rej1 where "rej1 = (case r of Inl e \<Rightarrow> (case rej of None \<Rightarrow> Some e | Some e0 \<Rightarrow> Some e0)
                                      | Inr fl \<Rightarrow> rej)"
  define vals1 where "vals1 = (case r of Inl e \<Rightarrow> vals | Inr fl \<Rightarrow> vals[i := Some fl])"
  have rec: "settle_all this ps js (rej1, vals1, m1, c1, rt1) = (rej', vals', m', c', rt')"
    using Cons.prems settle_all_Cons[OF task] by (simp add: rej1_def vals1_def)
  from task_shape[OF task] obtain evs1 where
    t1: "objects rt1 = objects rt" "next_ref rt \<le> next_ref rt1" "trace rt1 = trace rt @ evs1"
        "thread (m, c) evs1 = Some (m1, c1)" "\<forall>e\<in>set evs1. \<exists>k fl. call_of e = Single k fl"
    by blast
  from Cons.IH[OF rec] obtain evs2 where
    t2: "objects rt' = objects rt1" "next_ref rt1 \<le> next_ref rt'" "length vals' = length vals1"
        "rej1 \<noteq> None \<longrightarrow> rej' = rej1" "trace rt' = trace rt1 @ evs2"
        "thread (m1, c1) evs2 = Some (m', c')" "\<forall>e\<in>set evs2. \<exists>k fl. call_of e = Single k fl"
    by blast
  have "length vals1 = length vals" by (simp add: vals1_def split: sum.splits)
  moreover have "rej \<noteq> None \<longrightarrow> rej1 = rej" by (auto simp: rej1_def split: sum.splits)
  moreover have "trace rt' = trace rt @ (evs1 @ evs2)" using t1 t2 by simp
  moreover have "thread (m, c) (evs1 @ evs2) = Some (m', c')"
    using t1 t2 by (simp add: thread_append)
  moreover have "\<forall>e\<in>set (evs1 @ evs2). \<exists>k fl. call_of e = Single k fl"
    using t1 t2 by auto
  ultimately show ?case using t1 t2 by (metis le_trans)
qed

lemma settle_all_success:
  "settle_all this ps js (None, vals, m, c, rt) = (None, vals', m', c', rt') \<Longrightarrow>
   distinct js \<Longrightarrow> \<forall>i\<in>set js. i < length vals \<Longrightarrow>
     (\<forall>i\<in>set js. \<exists>fl. vals' ! i = Some fl \<and> settled (ps ! i) fl) \<and>
     (\<forall>i. i \<notin> set js \<longrightarrow> vals' ! i = vals ! i) \<and>
     (\<forall>evs. trace rt' = trace rt @ evs \<longrightarrow>
        map call_of evs =
          concat (map (\<lambda>i. map (\<lambda>kp. Single (fst kp) (the (vals' ! i)))
                             (singleFileOptimizations this)) js))"
proof (induction js arbitrary: vals m c rt)
  case Nil
  then show ?case by auto
next
  case (Cons i js)
  obtain r m1 c1 rt1 where task: "Optimizer_optimizeSingleFile this m (ps ! i) c rt = (r, m1, c1, rt1)"
    by (metis prod_cases4)
  define rej1 where "rej1 = (case r of Inl e \<Rightarrow> Some e | Inr fl \<Rightarrow> None)"
  define vals1 where "vals1 = (case r of Inl e \<Rightarrow> vals | Inr fl \<Rightarrow> vals[i := Some fl])"
  have rec: "settle_all this ps js (rej1, vals1, m1, c1, rt1) = (None, vals', m', c', rt')"
    using Cons.prems(1) settle_all_Cons[OF task, of js None vals]
    by (simp add: rej1_def vals1_def split: sum.splits)
  from settle_all_general[OF rec] have "rej1 = None" by auto
  then obtain fl where r: "r = Inr fl" by (auto simp: rej1_def split: sum.splits)
  have vals1: "vals1 = vals[i := Some fl]" by (simp add: vals1_def r)
  from task_shape[OF task] r obtain evs1 where
    t1: "trace rt1 = trace rt @ evs1" "settled (ps ! i) fl"
        "map call_of evs1 = map (\<lambda>kp. Single (fst kp) fl) (singleFileOptimizations this)"
    by blast
  have d: "distinct js" "i \<notin> set js" "i < length vals" "\<forall>j\<in>set js. j < length vals1"
    using Cons.prems vals1 by auto
  from Cons.IH[OF rec[unfolded \<open>rej1 = None\<close>] d(1) d(4)]
  have ih: "\<forall>j\<in>set js. \<exists>fl. vals' ! j = Some fl \<and> settled (ps ! j) fl"
           "\<forall>j. j \<notin> set js \<longrightarrow> vals' ! j = vals1 ! j"
           "\<forall>evs. trace rt' = trace rt1 @ evs \<longrightarrow>
              map call_of evs =
                concat (map (\<lambda>i. map (\<lambda>kp. Single (fst kp) (the (vals' ! i)))
                             (singleFileOptimizations this)) js)"
    by blast+
  have vi: "vals' ! i = Some fl" using ih(2) d vals1 by simp
  have a: "\<forall>j\<in>set (i # js). \<exists>fl. vals' ! j = Some fl \<and> settled (ps ! j) fl"
    using ih(1) vi t1(2) by auto
  have b: "\<forall>j. j \<notin> set (i # js) \<longrightarrow> vals' ! j = vals ! j"
    using ih(2) vals1 by auto
  have c: "map call_of evs =
          concat (map (\<lambda>i. map (\<lambda>kp. Single (fst kp) (the (vals' ! i)))
                             (singleFileOptimizations this)) (i # js))"
    if "trace rt' = trace rt @ evs" for evs
  proof -
    from settle_all_general[OF rec] obtain evs2 where e2: "trace rt' = trace rt1 @ evs2" by blast
    then have "evs = evs1 @ evs2" using that t1(1) by simp
    then show ?thesis using ih(3) e2 t1(3) vi by simp
  qed
  from a b c show ?case by blast
qed

lemma values_of_all_Some:
  "\<forall>i<length vs. vs ! i \<noteq> None \<Longrightarrow> values_of vs = map the vs"
proof (induction vs rule: values_of.induct)
  case 1
  then show ?case by simp
next
  case (2 vs)
  then show ?case by auto
next
  case (3 v vs)
  then have "\<forall>i<length vs. vs ! i \<noteq> None" by auto
  with 3 show ?case by simp
qed

lemma settle_order_set: "set (settle_order n sched) = {..<n}"
  by (auto simp: settle_order_def)

lemma settle_order_distinct: "distinct (settle_order n sched)"
  by (auto simp: settle_order_def)

lemma optimize_rejected:
  "phase1 env this sched rt = (Some e, vals, m1, c1, rt1) \<Longrightarrow>
   optimize env this out sched rt = (Inl e, rt1)"
  by (simp add: optimize_def start_all_eq phase1_def)

lemma optimize_resolved:
  "phase1 env this sched rt = (None, vals, m1, c1, rt1) \<Longrightarrow>
   run_multi (multiFileOptimizations this) m1 (values_of vals) (analyses this) c1 rt1
     = (thr, m2, c2, rt2) \<Longrightarrow>
   optimize env this out sched rt =
     (case thr of
        Some e \<Rightarrow> (Inl e, rt2)
      | None \<Rightarrow>
         (case add_files env out (results rt2) (values_of vals)
                  (new_Concat True out [CHR 0x0A]) of
            Inl e \<Rightarrow> (Inl e, rt2)
          | Inr cc \<Rightarrow>
              (Inr \<lparr>output = \<lparr>content = Raw (concat (contentParts cc)),
                               filename = Some out,
                               sourceMap = merged_sourceMap env out (added cc)\<rparr>,
                    styleMapping = m2\<rparr>, rt2)))"
  by (simp add: optimize_def start_all_eq phase1_def Optimizer_optimizeAllFiles_def
           split: option.splits sum.splits)

text \<open>What phase 1 leaves behind.\<close>

lemma phase1_general:
  assumes "phase1 env this sched rt = (rej, vals, m1, c1, rt1)"
  shows "objects rt1 = objects rt \<and> next_ref rt \<le> next_ref rt1 \<and>
         length vals = length (sources this) \<and>
         (\<exists>evs. trace rt1 = trace rt @ map ParserCall (raw_texts (sources this)) @ evs \<and>
            thread (new_StyleMapping env, new_SelectorCache env) evs = Some (m1, c1) \<and>
            (\<forall>e\<in>set evs. \<exists>k fl. call_of e = Single k fl))"
  using settle_all_general[OF assms[unfolded phase1_def]] by auto

lemma phase1_success:
  assumes "phase1 env this sched rt = (None, vals, m1, c1, rt1)"
  shows "length (values_of vals) = length (sources this) \<and>
         (\<forall>i<length (sources this).
             vals ! i = Some (values_of vals ! i) \<and>
             settled (promise_of env (sources this ! i)) (values_of vals ! i)) \<and>
         (\<forall>evs. trace rt1 = trace rt @ map ParserCall (raw_texts (sources this)) @ evs \<longrightarrow>
            map call_of evs =
              concat (map (\<lambda>i. map (\<lambda>kp. Single (fst kp) (values_of vals ! i))
                                 (singleFileOptimizations this))
                          (settle_order (length (sources this)) sched)))"
proof -
  let ?n = "length (sources this)"
  let ?js = "settle_order ?n sched"
  note run = assms[unfolded phase1_def]
  have len: "length vals = ?n" using settle_all_general[OF run] by simp
  have pre: "distinct ?js" "\<forall>i\<in>set ?js. i < length (replicate ?n (None :: CssFile option))"
    by (simp_all add: settle_order_distinct settle_order_set)
  note s = settle_all_success[OF run pre]
  have some: "\<exists>fl. vals ! i = Some fl \<and> settled (promise_of env (sources this ! i)) fl"
    if "i < ?n" for i
    using s that by (auto simp: settle_order_set)
  then have "\<forall>i<length vals. vals ! i \<noteq> None" using len by auto
  then have vo: "values_of vals = map the vals" by (rule values_of_all_Some)
  have a: "length (values_of vals) = ?n" using vo len by simp
  have b: "vals ! i = Some (values_of vals ! i) \<and>
           settled (promise_of env (sources this ! i)) (values_of vals ! i)" if "i < ?n" for i
    using some[OF that] vo len that by auto
  have c: "map call_of evs =
              concat (map (\<lambda>i. map (\<lambda>kp. Single (fst kp) (values_of vals ! i))
                                 (singleFileOptimizations this)) ?js)"
    if "trace rt1 = trace rt @ map ParserCall (raw_texts (sources this)) @ evs" for evs
  proof -
    have "map call_of evs =
          concat (map (\<lambda>i. map (\<lambda>kp. Single (fst kp) (the (vals ! i)))
                             (singleFileOptimizations this)) ?js)"
      using s that by simp
    moreover have "the (vals ! i) = values_of vals ! i" if "i \<in> set ?js" for i
      using that vo len by (simp add: settle_order_set)
    ultimately show ?thesis by (simp cong: map_cong)
  qed
  from a b c show ?thesis by blast
qed

lemma optimize_runtime:
  assumes "optimize env this out sched rt = (r, rt')"
  shows "\<exists>rej vals m1 c1 rt1.
           phase1 env this sched rt = (rej, vals, m1, c1, rt1) \<and>
           (case rej of
              Some e \<Rightarrow> r = Inl e \<and> rt' = rt1
            | None \<Rightarrow>
               (\<exists>thr m2 c2.
                  run_multi (multiFileOptimizations this) m1 (values_of vals) (analyses this)
                     c1 rt1 = (thr, m2, c2, rt') \<and>
                  (\<forall>e. thr = Some e \<longrightarrow> r = Inl e) \<and>
                  (\<forall>res. r = Inr res \<longrightarrow> thr = None \<and> styleMapping res = m2)))"
proof -
  obtain rej vals m1 c1 rt1 where p1: "phase1 env this sched rt = (rej, vals, m1, c1, rt1)"
    by (metis prod_cases5)
  show ?thesis
  proof (cases rej)
    case (Some e)
    with optimize_rejected[of env this sched rt e vals m1 c1 rt1 out] p1 assms
    show ?thesis by auto
  next
    case None
    obtain thr m2 c2 rt2 where rm:
      "run_multi (multiFileOptimizations this) m1 (values_of vals) (analyses this) c1 rt1
         = (thr, m2, c2, rt2)"
      by (metis prod_cases4)
    from optimize_resolved[OF p1[unfolded None] rm, of out] assms
    have "rt' = rt2" "\<forall>e. thr = Some e \<longrightarrow> r = Inl e"
         "\<forall>res. r = Inr res \<longrightarrow> thr = None \<and> styleMapping res = m2"
      by (auto split: option.splits sum.splits)
    with p1 None rm show ?thesis by auto
  qed
qed

text \<open>
  C4. In every run of \<open>optimize\<close>, from whatever runtime an earlier run left behind, the
  pass calls of both phases are threaded: the first is handed the new style mapping and
  the new selector cache, each later one is handed them as the call before left them,
  and the style mapping of the result is the one the last call left.
\<close>

theorem mapping_and_cache_per_call:
  assumes "optimize env this out sched rt = (r, rt')"
  shows "\<exists>evs fin. trace rt' = trace rt @ evs \<and>
           thread (new_StyleMapping env, new_SelectorCache env) evs = Some fin \<and>
           (\<forall>res. r = Inr res \<longrightarrow> styleMapping res = fst fin)"
proof -
  from optimize_runtime[OF assms] obtain rej vals m1 c1 rt1 where
    p1: "phase1 env this sched rt = (rej, vals, m1, c1, rt1)" and
    rest: "case rej of
              Some e \<Rightarrow> r = Inl e \<and> rt' = rt1
            | None \<Rightarrow>
               (\<exists>thr m2 c2.
                  run_multi (multiFileOptimizations this) m1 (values_of vals) (analyses this)
                     c1 rt1 = (thr, m2, c2, rt') \<and>
                  (\<forall>e. thr = Some e \<longrightarrow> r = Inl e) \<and>
                  (\<forall>res. r = Inr res \<longrightarrow> thr = None \<and> styleMapping res = m2))"
    by blast
  from phase1_general[OF p1] obtain evs1 where
    e1: "trace rt1 = trace rt @ map ParserCall (raw_texts (sources this)) @ evs1"
        "thread (new_StyleMapping env, new_SelectorCache env) evs1 = Some (m1, c1)"
    by blast
  let ?start = "(new_StyleMapping env, new_SelectorCache env)"
  have th1: "thread ?start (map ParserCall (raw_texts (sources this)) @ evs1) = Some (m1, c1)"
    using e1(2) by (simp add: thread_append thread_parser_calls)
  show ?thesis
  proof (cases rej)
    case (Some e)
    with rest e1 th1 show ?thesis by auto
  next
    case None
    with rest obtain thr m2 c2 where
      rm: "run_multi (multiFileOptimizations this) m1 (values_of vals) (analyses this)
             c1 rt1 = (thr, m2, c2, rt')" and
      res: "\<forall>res. r = Inr res \<longrightarrow> thr = None \<and> styleMapping res = m2"
      by auto
    from run_multi_shape[OF rm] obtain evs2 where
      e2: "trace rt' = trace rt1 @ evs2" "thread (m1, c1) evs2 = Some (m2, c2)"
      by blast
    have "trace rt' = trace rt @ ((map ParserCall (raw_texts (sources this)) @ evs1) @ evs2)"
      using e1 e2 by simp
    moreover have "thread ?start ((map ParserCall (raw_texts (sources this)) @ evs1) @ evs2)
                     = Some (m2, c2)"
      using th1 e2(2) by (simp only: thread_append option.case)
    ultimately show ?thesis using res by fastforce
  qed
qed

lemma split_after_prefix:
  assumes "xs @ ys = pre @ e # post" and "e \<notin> set xs"
  shows "\<exists>p2. pre = xs @ p2 \<and> ys = p2 @ e # post"
proof -
  from assms(1) obtain us where
    "(xs = pre @ us \<and> us @ ys = e # post) \<or> (xs @ us = pre \<and> ys = us @ e # post)"
    by (auto simp: append_eq_append_conv2)
  then show ?thesis
  proof
    assume a: "xs = pre @ us \<and> us @ ys = e # post"
    show ?thesis
    proof (cases us)
      case Nil
      with a show ?thesis by auto
    next
      case (Cons u us')
      with a have "u = e" by simp
      with a Cons assms(2) show ?thesis by auto
    qed
  next
    assume "xs @ us = pre \<and> ys = us @ e # post"
    then show ?thesis by auto
  qed
qed

text \<open>
  C2. Wherever a cross-file call appears in the trace of a run of \<open>optimize\<close>, everything
  of phase 1 is before it: the parser call of every raw source and, for every file in
  the order in which the promises settled, the call of every single-file pass on it; the
  files handed to the cross-file pass are the parsed files of all sources; and only
  cross-file calls follow.
\<close>

theorem cross_file_after_single_file:
  assumes run: "optimize env this out sched rt = (r, rt')"
      and at: "trace rt' = trace rt @ pre @ AllFilesCall k fls m c m' c' # post"
  shows "length fls = length (sources this)
       \<and> (\<forall>i<length (sources this). settled (promise_of env (sources this ! i)) (fls ! i))
       \<and> (\<exists>p1 p2. pre = p1 @ p2
            \<and> map call_of p1 =
                map Parse (raw_texts (sources this)) @
                concat (map (\<lambda>i. map (\<lambda>kp. Single (fst kp) (fls ! i))
                                   (singleFileOptimizations this))
                            (settle_order (length (sources this)) sched))
            \<and> (\<forall>e\<in>set (p2 @ post). \<exists>k'. call_of e = Multi k' fls))
       \<and> set (settle_order (length (sources this)) sched) = {..<length (sources this)}"
proof -
  let ?ev = "AllFilesCall k fls m c m' c'"
  let ?parse = "map ParserCall (raw_texts (sources this))"
  from optimize_runtime[OF run] obtain rej vals m1 c1 rt1 where
    p1: "phase1 env this sched rt = (rej, vals, m1, c1, rt1)" and
    rest: "case rej of
              Some e \<Rightarrow> r = Inl e \<and> rt' = rt1
            | None \<Rightarrow>
               (\<exists>thr m2 c2.
                  run_multi (multiFileOptimizations this) m1 (values_of vals) (analyses this)
                     c1 rt1 = (thr, m2, c2, rt') \<and>
                  (\<forall>e. thr = Some e \<longrightarrow> r = Inl e) \<and>
                  (\<forall>res. r = Inr res \<longrightarrow> thr = None \<and> styleMapping res = m2))"
    by blast
  from phase1_general[OF p1] obtain evs1 where
    e1: "trace rt1 = trace rt @ ?parse @ evs1"
        "\<forall>e\<in>set evs1. \<exists>k fl. call_of e = Single k fl"
    by blast
  have notin: "?ev \<notin> set (?parse @ evs1)"
  proof
    assume "?ev \<in> set (?parse @ evs1)"
    then consider "?ev \<in> set ?parse" | "?ev \<in> set evs1" by auto
    then show False
    proof cases
      case 1 then show False by auto
    next
      case 2 with e1(2) have "\<exists>k fl. call_of ?ev = Single k fl" by blast
      then show False by simp
    qed
  qed
  show ?thesis
  proof (cases rej)
    case (Some e)
    with rest have "rt' = rt1" by simp
    with e1(1) at have "?parse @ evs1 = pre @ ?ev # post" by simp
    then have "?ev \<in> set (?parse @ evs1)" by (metis in_set_conv_decomp)
    with notin show ?thesis by contradiction
  next
    case None
    with rest obtain thr m2 c2 where
      rm: "run_multi (multiFileOptimizations this) m1 (values_of vals) (analyses this)
             c1 rt1 = (thr, m2, c2, rt')"
      by auto
    from run_multi_shape[OF rm] obtain evs2 j where
      e2: "trace rt' = trace rt1 @ evs2"
          "map call_of evs2 = map (\<lambda>kp. Multi (fst kp) (values_of vals))
                                 (take j (multiFileOptimizations this))"
      by blast
    have multi: "\<exists>k'. call_of e = Multi k' (values_of vals)" if "e \<in> set evs2" for e
    proof -
      from that have "call_of e \<in> set (map call_of evs2)" by simp
      then show ?thesis unfolding e2(2) by auto
    qed
    have "(?parse @ evs1) @ evs2 = pre @ ?ev # post" using e1(1) e2(1) at by simp
    from split_after_prefix[OF this notin] obtain p2 where
      sp: "pre = (?parse @ evs1) @ p2" "evs2 = p2 @ ?ev # post"
      by blast
    have "?ev \<in> set evs2" using sp(2) by simp
    from multi[OF this] have fls: "fls = values_of vals" by simp
    note s = phase1_success[OF p1[unfolded None]]
    have c1: "map call_of (?parse @ evs1) =
                map Parse (raw_texts (sources this)) @
                concat (map (\<lambda>i. map (\<lambda>kp. Single (fst kp) (fls ! i))
                                   (singleFileOptimizations this))
                            (settle_order (length (sources this)) sched))"
      using s e1(1) by (simp add: fls comp_def)
    have c2: "\<forall>e\<in>set (p2 @ post). \<exists>k'. call_of e = Multi k' fls"
      using multi sp(2) fls by auto
    show ?thesis
      using s sp(1) c1 c2 fls settle_order_set by blast
  qed
qed









lemma instantiate_fails:
  "instantiate tab this rt = (Inl e, rt') \<Longrightarrow>
     \<exists>kc\<in>set tab. truthy (get_prop (objects rt (options this)) (fst kc)) \<and>
                   snd kc (objects rt (options this)) = Inl e"
proof (induction tab this rt rule: instantiate.induct)
  case (1 this rt)
  then show ?case by simp
next
  case (2 opt Optimization rest this rt)
  let ?eff = "objects rt (options this)"
  show ?case
  proof (cases "truthy (get_prop ?eff opt)")
    case False
    with 2 show ?thesis by simp
  next
    case True
    show ?thesis
    proof (cases "Optimization ?eff")
      case (Inl e')
      with 2(3) True show ?thesis by (auto simp: Let_def)
    next
      case (Inr optimization)
      define rt1 where "rt1 = rt\<lparr>trace := trace rt @ [NewOptimization opt]\<rparr>"
      define this1 where "this1 = (if optimizesSingleFiles optimization
                           then this\<lparr>singleFileOptimizations :=
                                  singleFileOptimizations this @ [(opt, optimization)]\<rparr>
                           else this)"
      define this2 where "this2 = (if optimizesAllFiles optimization
                           then this1\<lparr>multiFileOptimizations :=
                                  multiFileOptimizations this1 @ [(opt, optimization)]\<rparr>
                           else this1)"
      have rec: "instantiate rest this2 rt1 = (Inl e, rt')"
        using 2(3) True Inr
        by (cases "optimizesSingleFiles optimization"; cases "optimizesAllFiles optimization")
           (simp_all add: Let_def rt1_def this1_def this2_def)
      have same: "objects rt1 (options this2) = ?eff"
        by (simp add: rt1_def this1_def this2_def)
      from 2(1)[OF True rt1_def Inr this1_def this2_def rec]
      show ?thesis unfolding same by auto
    qed
  qed
qed

lemma new_Optimizer_unfold:
  "new_Optimizer env opts rt =
     (let rt2 = Object_assign (next_ref rt) [DEFAULT_OPTIONS env, opts]
                  (rt\<lparr>objects := (objects rt)(next_ref rt := []), next_ref := Suc (next_ref rt)\<rparr>);
          this = \<lparr>sources = [], analyses = [], options = next_ref rt,
                  singleFileOptimizations = [], multiFileOptimizations = []\<rparr>
      in if \<not> truthy (get_prop (objects rt2 (next_ref rt)) ''enabled'')
         then (Inr this, rt2)
         else instantiate (optimizations env) this rt2)"
  by (simp add: new_Optimizer_def Let_def)


text \<open>
  C6, as the code has it. The constructor checks no option: it fails only when the
  constructor of an enabled pass throws, and then with that error. When no pass
  constructor throws, every options object yields an optimizer.
\<close>

theorem construction_never_validates:
  assumes "new_Optimizer env opts rt = (r, rt')"
  shows "(\<forall>e. r = Inl e \<longrightarrow>
            (\<exists>kc\<in>set (optimizations env).
                truthy (get_prop (objects rt' (next_ref rt)) (fst kc)) \<and>
                snd kc (objects rt' (next_ref rt)) = Inl e))
       \<and> ((\<forall>kc\<in>set (optimizations env). \<forall>eff. \<not> isl (snd kc eff)) \<longrightarrow> \<not> isl r)"
proof -
  define rt2 where "rt2 = Object_assign (next_ref rt) [DEFAULT_OPTIONS env, opts]
                  (rt\<lparr>objects := (objects rt)(next_ref rt := []), next_ref := Suc (next_ref rt)\<rparr>)"
  define this0 :: "('a, 'b, 'c, 'd) Optimizer" where
    "this0 = \<lparr>sources = [], analyses = [], options = next_ref rt,
                  singleFileOptimizations = [], multiFileOptimizations = []\<rparr>"
  have a: "\<exists>kc\<in>set (optimizations env).
                truthy (get_prop (objects rt' (next_ref rt)) (fst kc)) \<and>
                snd kc (objects rt' (next_ref rt)) = Inl e" if "r = Inl e" for e
  proof -
    from assms that have inst: "instantiate (optimizations env) this0 rt2 = (Inl e, rt')"
      by (auto simp: new_Optimizer_unfold rt2_def this0_def Let_def split: if_splits)
    from instantiate_frame[OF inst] have "objects rt' = objects rt2" by simp
    with instantiate_fails[OF inst] show ?thesis by (simp add: this0_def)
  qed
  have "\<not> isl r" if quiet: "\<forall>kc\<in>set (optimizations env). \<forall>eff. \<not> isl (snd kc eff)"
  proof (cases r)
    case (Inl e)
    from a[OF Inl] obtain kc where
      "kc \<in> set (optimizations env)" "snd kc (objects rt' (next_ref rt)) = Inl e"
      by blast
    with quiet have False by (metis sum.disc(1))
    then show ?thesis ..
  next
    case (Inr this)
    then show ?thesis by simp
  qed
  with a show ?thesis by blast
qed





lemma fold_addSource:
  "sources (fold addSource srcs this) = sources this @ srcs \<and>
   analyses (fold addSource srcs this) = analyses this \<and>
   options (fold addSource srcs this) = options this \<and>
   singleFileOptimizations (fold addSource srcs this) = singleFileOptimizations this \<and>
   multiFileOptimizations (fold addSource srcs this) = multiFileOptimizations this"
  by (induction srcs arbitrary: this) (simp_all add: addSource_def)

lemma settled_parsed:
  "settled (promise_of env src) fl \<Longrightarrow> \<exists>r. content fl = Parsed r"
  by (auto simp: settled_def promise_of_def split: content.splits sum.splits)

lemma intersperse_Cons:
  "intersperse s (x # xs) = x # concat (map (\<lambda>y. [s, y]) xs)"
  by (induction xs arbitrary: x) auto

lemma add_files_refs:
  "map content fls = map Parsed refs \<Longrightarrow>
   add_files env out h fls cc =
     Inr (cc\<lparr>contentParts :=
               (if contentParts cc = []
                then intersperse (separator cc) (map (\<lambda>r. fst (toResult env (h r) out)) refs)
                else contentParts cc @
                     concat (map (\<lambda>r. [separator cc, fst (toResult env (h r) out)]) refs)),
             added := added cc @
                map (\<lambda>fr. (filename_or_default (fst fr),
                            fst (toResult env (h (snd fr)) out),
                            snd (toResult env (h (snd fr)) out))) (zip fls refs)\<rparr>)"
proof (induction fls arbitrary: refs cc)
  case Nil
  then show ?case by simp
next
  case (Cons fl fls)
  then obtain r refs' where refs: "refs = r # refs'" "content fl = Parsed r"
    "map content fls = map Parsed refs'"
    by (cases refs) auto
  obtain css smap where tr: "toResult env (h r) out = (css, smap)"
    by (cases "toResult env (h r) out")
  show ?case
    using Cons.IH[OF refs(3), of "Concat_add (filename_or_default fl) css smap cc"] refs tr
    by (cases "contentParts cc = []") (simp_all add: Concat_add_def intersperse_Cons comp_def)
qed

lemma optimize_success:
  assumes "optimize env this out sched rt = (Inr res, rt')"
  shows "\<exists>fls refs evs.
           length fls = length (sources this) \<and> map content fls = map Parsed refs \<and>
           (\<forall>i<length (sources this). settled (promise_of env (sources this ! i)) (fls ! i)) \<and>
           trace rt' = trace rt @ evs \<and>
           map call_of evs =
             map Parse (raw_texts (sources this)) @
             concat (map (\<lambda>i. map (\<lambda>kp. Single (fst kp) (fls ! i))
                                (singleFileOptimizations this))
                         (settle_order (length (sources this)) sched)) @
             map (\<lambda>kp. Multi (fst kp) fls) (multiFileOptimizations this) \<and>
           output res =
             \<lparr>content = Raw (concat (intersperse [CHR 0x0A]
                               (map (\<lambda>r. fst (toResult env (results rt' r) out)) refs))),
              filename = Some out,
              sourceMap = merged_sourceMap env out
                (map (\<lambda>fr. (filename_or_default (fst fr),
                            fst (toResult env (results rt' (snd fr)) out),
                            snd (toResult env (results rt' (snd fr)) out))) (zip fls refs))\<rparr>"
proof -
  from optimize_runtime[OF assms] obtain rej vals m1 c1 rt1 where
    p1: "phase1 env this sched rt = (rej, vals, m1, c1, rt1)" and
    rest: "case rej of
              Some e \<Rightarrow> Inr res = (Inl e :: error + 'a OptimizationResult) \<and> rt' = rt1
            | None \<Rightarrow>
               (\<exists>thr m2 c2.
                  run_multi (multiFileOptimizations this) m1 (values_of vals) (analyses this)
                     c1 rt1 = (thr, m2, c2, rt') \<and>
                  (\<forall>e. thr = Some e \<longrightarrow> Inr res = (Inl e :: error + 'a OptimizationResult)) \<and>
                  (\<forall>res'. Inr res = (Inr res' :: error + 'a OptimizationResult) \<longrightarrow>
                       thr = None \<and> styleMapping res' = m2))"
    by blast
  from rest have rej: "rej = None" by (cases rej) auto
  with rest obtain m2 c2 where
    rm: "run_multi (multiFileOptimizations this) m1 (values_of vals) (analyses this)
                     c1 rt1 = (None, m2, c2, rt')"
    by auto
  let ?fls = "values_of vals"
  note s = phase1_success[OF p1[unfolded rej]]
  from phase1_general[OF p1] obtain evs1 where
    e1: "trace rt1 = trace rt @ map ParserCall (raw_texts (sources this)) @ evs1" by blast
  from run_multi_shape[OF rm] obtain evs2 where
    e2: "trace rt' = trace rt1 @ evs2"
        "map call_of evs2 = map (\<lambda>kp. Multi (fst kp) ?fls) (multiFileOptimizations this)"
    by auto
  have parsed: "\<forall>fl\<in>set ?fls. \<exists>r. content fl = Parsed r"
  proof
    fix fl assume "fl \<in> set ?fls"
    then obtain i where "i < length ?fls" "?fls ! i = fl" by (auto simp: in_set_conv_nth)
    with s settled_parsed show "\<exists>r. content fl = Parsed r" by metis
  qed
  define refs where "refs = map (\<lambda>fl. case content fl of Parsed r \<Rightarrow> r | Raw t \<Rightarrow> 0) ?fls"
  have refs: "map content ?fls = map Parsed refs"
    using parsed by (auto simp: refs_def)
  note af = add_files_refs[OF refs, of env out "results rt'" "new_Concat True out [CHR 0x0A]"]
  from optimize_resolved[OF p1[unfolded rej] rm, of out] assms af
  have out: "output res =
             \<lparr>content = Raw (concat (intersperse [CHR 0x0A]
                               (map (\<lambda>r. fst (toResult env (results rt' r) out)) refs))),
              filename = Some out,
              sourceMap = merged_sourceMap env out
                (map (\<lambda>fr. (filename_or_default (fst fr),
                            fst (toResult env (results rt' (snd fr)) out),
                            snd (toResult env (results rt' (snd fr)) out))) (zip ?fls refs))\<rparr>"
    by (auto simp: new_Concat_def)
  have tr: "trace rt' = trace rt @ (map ParserCall (raw_texts (sources this)) @ evs1 @ evs2)"
    using e1 e2 by simp
  have calls: "map call_of (map ParserCall (raw_texts (sources this)) @ evs1 @ evs2) =
             map Parse (raw_texts (sources this)) @
             concat (map (\<lambda>i. map (\<lambda>kp. Single (fst kp) (?fls ! i))
                                (singleFileOptimizations this))
                         (settle_order (length (sources this)) sched)) @
             map (\<lambda>kp. Multi (fst kp) ?fls) (multiFileOptimizations this)"
    using s e1 e2(2) by (simp add: comp_def)
  from s refs tr calls out show ?thesis by blast
qed

lemma task_no_passes:
  "singleFileOptimizations this = [] \<Longrightarrow>
   Optimizer_optimizeSingleFile this m p c rt =
     (case settle_parse p rt of (r, rt1) \<Rightarrow> (r, m, c, rt1))"
  by (auto simp: Optimizer_optimizeSingleFile_def split: prod.splits sum.splits)

lemma settle_all_no_passes:
  assumes np: "singleFileOptimizations this = []"
  shows "settle_all this (map (promise_of env) srcs) js (None, vals, m, c, rt)
           = (rej', vals', m', c', rt') \<Longrightarrow>
         distinct js \<Longrightarrow>
         \<forall>i\<in>set js. i < length vals \<and> i < length srcs \<and>
            source_tree env (results rt) (srcs ! i) \<noteq> None \<and>
            (\<forall>r. content (srcs ! i) = Parsed r \<longrightarrow> r < next_ref rt) \<Longrightarrow>
         rej' = None \<and> m' = m \<and> c' = c \<and> trace rt' = trace rt \<and>
         next_ref rt \<le> next_ref rt' \<and>
         (\<forall>a<next_ref rt. results rt' a = results rt a) \<and>
         (\<forall>i. i \<notin> set js \<longrightarrow> vals' ! i = vals ! i) \<and>
         (\<forall>i\<in>set js. \<exists>fl r. vals' ! i = Some fl \<and> content fl = Parsed r \<and>
              source_tree env (results rt) (srcs ! i) = Some (results rt' r))"
proof (induction js arbitrary: vals rt)
  case Nil
  then show ?case by simp
next
  case (Cons i js)
  let ?ps = "map (promise_of env) srcs"
  from Cons.prems(3) have i: "i < length vals" "i < length srcs"
    and tree: "source_tree env (results rt) (srcs ! i) \<noteq> None"
    and live: "\<forall>r. content (srcs ! i) = Parsed r \<longrightarrow> r < next_ref rt"
    by auto
  from Cons.prems(2) have d: "distinct js" "i \<notin> set js" by auto
  have pi: "?ps ! i = promise_of env (srcs ! i)" using i by simp
  obtain r0 rt1 where sp: "settle_parse (?ps ! i) rt = (r0, rt1)"
    by (cases "settle_parse (?ps ! i) rt")
  have task: "Optimizer_optimizeSingleFile this m (?ps ! i) c rt = (r0, m, c, rt1)"
    using task_no_passes[OF np, of m "?ps ! i" c rt] sp by simp
  note step = settle_all_Cons[OF task, of js None vals]
  \<comment> \<open>what settling this promise does\<close>
  have "\<exists>fl r. r0 = Inr fl \<and> content fl = Parsed r \<and> trace rt1 = trace rt \<and>
          next_ref rt \<le> next_ref rt1 \<and> r < next_ref rt1 \<and>
          (\<forall>a<next_ref rt. results rt1 a = results rt a) \<and>
          source_tree env (results rt) (srcs ! i) = Some (results rt1 r)"
  proof (cases "content (srcs ! i)")
    case (Raw raw)
    with tree obtain t where
      t: "postcss_process env raw (filename (srcs ! i)) (sourceMap (srcs ! i)) = Inr t"
      by (auto simp: source_tree_def split: sum.splits)
    with sp pi Raw show ?thesis
      by (auto simp: settle_parse_def promise_of_def source_tree_def Let_def)
  next
    case (Parsed r)
    with sp pi live show ?thesis
      by (auto simp: settle_parse_def promise_of_def source_tree_def)
  qed
  then obtain fl r where
    r0: "r0 = Inr fl" and fl: "content fl = Parsed r" and tr1: "trace rt1 = trace rt" and
    nx: "next_ref rt \<le> next_ref rt1" "r < next_ref rt1" and
    old: "\<forall>a<next_ref rt. results rt1 a = results rt a" and
    st: "source_tree env (results rt) (srcs ! i) = Some (results rt1 r)"
    by blast
  have rec: "settle_all this ?ps js (None, vals[i := Some fl], m, c, rt1)
               = (rej', vals', m', c', rt')"
    using Cons.prems(1) step r0 by simp
  have same_tree: "source_tree env (results rt1) (srcs ! j) = source_tree env (results rt) (srcs ! j)"
    if "j \<in> set js" for j
    using Cons.prems(3) that old by (auto simp: source_tree_def split: content.splits)
  have pre: "\<forall>j\<in>set js. j < length (vals[i := Some fl]) \<and> j < length srcs \<and>
            source_tree env (results rt1) (srcs ! j) \<noteq> None \<and>
            (\<forall>r. content (srcs ! j) = Parsed r \<longrightarrow> r < next_ref rt1)"
    using Cons.prems(3) same_tree nx by fastforce
  from Cons.IH[OF rec d(1) pre]
  have ih: "rej' = None" "m' = m" "c' = c" "trace rt' = trace rt1" "next_ref rt1 \<le> next_ref rt'"
    "\<forall>a<next_ref rt1. results rt' a = results rt1 a"
    "\<forall>j. j \<notin> set js \<longrightarrow> vals' ! j = vals[i := Some fl] ! j"
    "\<forall>j\<in>set js. \<exists>fl r. vals' ! j = Some fl \<and> content fl = Parsed r \<and>
              source_tree env (results rt1) (srcs ! j) = Some (results rt' r)"
    by blast+
  have a: "\<forall>a<next_ref rt. results rt' a = results rt a"
    using ih(6) old nx by auto
  have b: "\<forall>j. j \<notin> set (i # js) \<longrightarrow> vals' ! j = vals ! j"
    using ih(7) by auto
  have "vals' ! i = Some fl" using ih(7) d i by simp
  moreover have "source_tree env (results rt) (srcs ! i) = Some (results rt' r)"
    using st ih(6) nx by simp
  ultimately have c: "\<forall>j\<in>set (i # js). \<exists>fl r. vals' ! j = Some fl \<and> content fl = Parsed r \<and>
              source_tree env (results rt) (srcs ! j) = Some (results rt' r)"
    using ih(8) same_tree fl by auto
  from ih(1-5) tr1 nx a b c show ?case by auto
qed

lemma fold_addAnalysis:
  "sources (fold addAnalysis ans this) = sources this \<and>
   analyses (fold addAnalysis ans this) = analyses this @ ans \<and>
   options (fold addAnalysis ans this) = options this \<and>
   singleFileOptimizations (fold addAnalysis ans this) = singleFileOptimizations this \<and>
   multiFileOptimizations (fold addAnalysis ans this) = multiFileOptimizations this"
  by (induction ans arbitrary: this) (simp_all add: addAnalysis_def)

lemma merged_object:
  assumes "opts < next_ref rt" "DEFAULT_OPTIONS env < next_ref rt"
  shows "objects (Object_assign (next_ref rt) [DEFAULT_OPTIONS env, opts]
                   (rt\<lparr>objects := (objects rt)(next_ref rt := []), next_ref := Suc (next_ref rt)\<rparr>))
           (next_ref rt) =
         assign_from (objects rt opts) (assign_from (objects rt (DEFAULT_OPTIONS env)) [])"
  using assms by simp

lemma disabled_construction:
  assumes off: "map_of (objects rt0 opts) ''enabled'' = Some (Bool False)"
      and live: "opts < next_ref rt0" "DEFAULT_OPTIONS env < next_ref rt0"
  shows "\<exists>this rt1. new_Optimizer env opts rt0 = (Inr this, rt1) \<and>
           sources this = [] \<and> analyses this = [] \<and>
           singleFileOptimizations this = [] \<and> multiFileOptimizations this = []"
proof -
  define rt2 where "rt2 = Object_assign (next_ref rt0) [DEFAULT_OPTIONS env, opts]
        (rt0\<lparr>objects := (objects rt0)(next_ref rt0 := []), next_ref := Suc (next_ref rt0)\<rparr>)"
  have "map_of (objects rt2 (next_ref rt0)) ''enabled'' = Some (Bool False)"
    unfolding rt2_def merged_object[OF live] using off by (simp add: map_of_assign_from)
  then have no: "\<not> truthy (get_prop (objects rt2 (next_ref rt0)) ''enabled'')"
    by (simp add: get_prop_def)
  have "new_Optimizer env opts rt0 =
          (Inr \<lparr>sources = [], analyses = [], options = next_ref rt0,
                 singleFileOptimizations = [], multiFileOptimizations = []\<rparr>, rt2)"
    unfolding new_Optimizer_unfold Let_def rt2_def[symmetric] using no by simp
  then show ?thesis by simp
qed

lemma optimize_no_passes:
  assumes np: "singleFileOptimizations this = []" "multiFileOptimizations this = []"
      and trees: "map (source_tree env (results rt)) (sources this) = map Some trees"
      and handles: "\<forall>src\<in>set (sources this). \<forall>r. content src = Parsed r \<longrightarrow> r < next_ref rt"
  shows "\<exists>res rt'. optimize env this out sched rt = (Inr res, rt') \<and>
              content (output res) =
                Raw (concat (intersperse [CHR 0x0A] (map (\<lambda>t. fst (toResult env t out)) trees))) \<and>
              styleMapping res = new_StyleMapping env \<and>
              trace rt' = trace rt @ map ParserCall (raw_texts (sources this)) \<and>
              (\<forall>a<next_ref rt. results rt' a = results rt a)"
proof -
  let ?srcs = "sources this"
  let ?n = "length ?srcs"
  let ?js = "settle_order ?n sched"
  let ?rt0 = "rt\<lparr>trace := trace rt @ map ParserCall (raw_texts ?srcs)\<rparr>"
  have len: "length trees = ?n" using trees by (metis length_map)
  have tree: "source_tree env (results rt) (?srcs ! i) = Some (trees ! i)" if "i < ?n" for i
  proof -
    have "map (source_tree env (results rt)) ?srcs ! i = map Some trees ! i" using trees by simp
    with that len show ?thesis by simp
  qed
  obtain rej vals m1 c1 rt1 where p1: "phase1 env this sched rt = (rej, vals, m1, c1, rt1)"
    by (metis prod_cases5)
  have pre: "\<forall>i\<in>set ?js. i < length (replicate ?n (None :: CssFile option)) \<and> i < length ?srcs \<and>
            source_tree env (results ?rt0) (?srcs ! i) \<noteq> None \<and>
            (\<forall>r. content (?srcs ! i) = Parsed r \<longrightarrow> r < next_ref ?rt0)"
    using tree handles by (auto simp: settle_order_set)
  from settle_all_no_passes[OF np(1) p1[unfolded phase1_def] settle_order_distinct pre]
  have s: "rej = None" "m1 = new_StyleMapping env" "c1 = new_SelectorCache env"
    "trace rt1 = trace rt @ map ParserCall (raw_texts ?srcs)"
    "\<forall>a<next_ref rt. results rt1 a = results rt a"
    "\<forall>i<?n. \<exists>fl r. vals ! i = Some fl \<and> content fl = Parsed r \<and>
              source_tree env (results rt) (?srcs ! i) = Some (results rt1 r)"
    by (auto simp: settle_order_set)
  have lv: "length vals = ?n" using phase1_general[OF p1] by simp
  have "\<forall>i<length vals. vals ! i \<noteq> None" using s(6) lv by auto
  then have vo: "values_of vals = map the vals" by (rule values_of_all_Some)
  define refs where
    "refs = map (\<lambda>fl. case content fl of Parsed r \<Rightarrow> r | Raw t \<Rightarrow> 0) (values_of vals)"
  have at: "content (values_of vals ! i) = Parsed (refs ! i) \<and> results rt1 (refs ! i) = trees ! i"
    if "i < ?n" for i
  proof -
    from s(6) that obtain fl r where
      f: "vals ! i = Some fl" "content fl = Parsed r"
         "source_tree env (results rt) (?srcs ! i) = Some (results rt1 r)"
      by blast
    have "values_of vals ! i = fl" using vo f(1) lv that by simp
    moreover from this f(2) have "refs ! i = r" using lv vo that by (simp add: refs_def)
    ultimately show ?thesis using f tree[OF that] by simp
  qed
  have lr: "length refs = ?n" using lv vo by (simp add: refs_def)
  have refs: "map content (values_of vals) = map Parsed refs"
    using at lr lv vo by (intro nth_equalityI) auto
  have chunks: "map (\<lambda>r. fst (toResult env (results rt1 r) out)) refs =
                map (\<lambda>t. fst (toResult env t out)) trees"
    using at lr len by (intro nth_equalityI) auto
  have rm: "run_multi (multiFileOptimizations this) m1 (values_of vals) (analyses this) c1 rt1
              = (None, m1, c1, rt1)"
    by (simp add: np)
  note af = add_files_refs[OF refs, of env out "results rt1" "new_Concat True out [CHR 0x0A]"]
  from optimize_resolved[OF p1[unfolded s(1)] rm, of out] af chunks
  have "optimize env this out sched rt =
          (Inr \<lparr>output =
             \<lparr>content = Raw (concat (intersperse [CHR 0x0A]
                               (map (\<lambda>t. fst (toResult env t out)) trees))),
              filename = Some out,
              sourceMap = merged_sourceMap env out
                (map (\<lambda>fr. (filename_or_default (fst fr),
                            fst (toResult env (results rt1 (snd fr)) out),
                            snd (toResult env (results rt1 (snd fr)) out)))
                     (zip (values_of vals) refs))\<rparr>,
              styleMapping = m1\<rparr>, rt1)"
    by (simp add: new_Concat_def)
  with s show ?thesis by simp
qed

text \<open>
  C1. When the supplied options have \<open>enabled: false\<close>, the constructor succeeds with
  both pass groups empty. Running \<open>optimize\<close> on that optimizer, whatever sources and
  analyses were added and in whatever order the promises settle, only parses and prints:
  when every source has a rule tree (a text that parses, or a handle that exists), the
  output is the printed trees of the sources, in their order, joined by a newline; the
  style mapping is the new one, no pass is called and no existing rule tree is touched.
\<close>

theorem disabled_is_pass_through:
  assumes off: "map_of (objects rt0 opts) ''enabled'' = Some (Bool False)"
      and live: "opts < next_ref rt0" "DEFAULT_OPTIONS env < next_ref rt0"
      and trees: "map (source_tree env (results rt)) srcs = map Some trees"
      and handles: "\<forall>src\<in>set srcs. \<forall>r. content src = Parsed r \<longrightarrow> r < next_ref rt"
  shows "\<exists>this rt1. new_Optimizer env opts rt0 = (Inr this, rt1) \<and>
           singleFileOptimizations this = [] \<and> multiFileOptimizations this = [] \<and>
           (\<exists>res rt'.
              optimize env (fold addSource srcs (fold addAnalysis ans this)) out sched rt
                = (Inr res, rt') \<and>
              content (output res) =
                Raw (concat (intersperse [CHR 0x0A] (map (\<lambda>t. fst (toResult env t out)) trees))) \<and>
              styleMapping res = new_StyleMapping env \<and>
              trace rt' = trace rt @ map ParserCall (raw_texts srcs) \<and>
              (\<forall>a<next_ref rt. results rt' a = results rt a))"
proof -
  from disabled_construction[OF off live] obtain this rt1 where
    c: "new_Optimizer env opts rt0 = (Inr this, rt1)" "sources this = []"
       "singleFileOptimizations this = []" "multiFileOptimizations this = []"
    by blast
  let ?opt = "fold addSource srcs (fold addAnalysis ans this)"
  have f: "sources ?opt = srcs" "singleFileOptimizations ?opt = []"
          "multiFileOptimizations ?opt = []"
    using c by (simp_all add: fold_addSource fold_addAnalysis)
  from optimize_no_passes[of ?opt env rt trees out sched] f trees handles
  have "\<exists>res rt'. optimize env ?opt out sched rt = (Inr res, rt') \<and>
              content (output res) =
                Raw (concat (intersperse [CHR 0x0A] (map (\<lambda>t. fst (toResult env t out)) trees))) \<and>
              styleMapping res = new_StyleMapping env \<and>
              trace rt' = trace rt @ map ParserCall (raw_texts srcs) \<and>
              (\<forall>a<next_ref rt. results rt' a = results rt a)"
    by simp
  with c show ?thesis by blast
qed



subsection \<open>What a successful run computes\<close>

lemma run_single_effect:
  "run_single ps m fl an c rt = (None, m', c', rt') \<Longrightarrow>
     (m', c', results rt') = fold (\<lambda>kp. invoke_single (snd kp) fl an) ps (m, c, results rt)"
proof (induction ps arbitrary: m c rt)
  case Nil
  then show ?case by simp
next
  case (Cons kp rest)
  obtain k p where kp: "kp = (k, p)" by (cases kp)
  from Cons.prems kp obtain mth where some: "optimizeSingleFile p = Some mth"
    by (cases "optimizeSingleFile p") auto
  obtain t m1 c1 h1 where app: "mth m fl an c (results rt) = (t, m1, c1, h1)"
    by (metis prod_cases4)
  define rt1 where "rt1 = rt\<lparr>results := h1,
      trace := trace rt @ [SingleFileCall k fl m c m1 c1]\<rparr>"
  from Cons.prems kp some app have t: "t = None"
    by (cases t) (auto simp: Let_def)
  with Cons.prems kp some app have rec: "run_single rest m1 fl an c1 rt1 = (None, m', c', rt')"
    by (simp add: rt1_def)
  have "invoke_single p fl an (m, c, results rt) = (m1, c1, results rt1)"
    by (simp add: invoke_single_def some app rt1_def)
  with Cons.IH[OF rec] show ?case by (simp add: kp)
qed

lemma run_multi_effect:
  "run_multi ps m fls an c rt = (None, m', c', rt') \<Longrightarrow>
     (m', c', results rt') = fold (\<lambda>kp. invoke_multi (snd kp) fls an) ps (m, c, results rt)"
proof (induction ps arbitrary: m c rt)
  case Nil
  then show ?case by simp
next
  case (Cons kp rest)
  obtain k p where kp: "kp = (k, p)" by (cases kp)
  from Cons.prems kp obtain mth where some: "optimizeAllFiles p = Some mth"
    by (cases "optimizeAllFiles p") auto
  obtain t m1 c1 h1 where app: "mth m fls an c (results rt) = (t, m1, c1, h1)"
    by (metis prod_cases4)
  define rt1 where "rt1 = rt\<lparr>results := h1,
      trace := trace rt @ [AllFilesCall k fls m c m1 c1]\<rparr>"
  from Cons.prems kp some app have t: "t = None"
    by (cases t) (auto simp: Let_def)
  with Cons.prems kp some app have rec: "run_multi rest m1 fls an c1 rt1 = (None, m', c', rt')"
    by (simp add: rt1_def)
  have "invoke_multi p fls an (m, c, results rt) = (m1, c1, results rt1)"
    by (simp add: invoke_multi_def some app rt1_def)
  with Cons.IH[OF rec] show ?case by (simp add: kp)
qed

lemma task_effect:
  assumes "Optimizer_optimizeSingleFile this m (promise_of env src) c rt = (Inr fl, m', c', rt')"
  shows "fl = (case content src of
                 Parsed r \<Rightarrow> src
               | Raw raw \<Rightarrow> \<lparr>content = Parsed (next_ref rt), filename = filename src,
                              sourceMap = None\<rparr>)
       \<and> next_ref rt' = next_ref rt + (if is_raw src then 1 else 0)
       \<and> (m', c', results rt') =
           single_file_effect env (singleFileOptimizations this) (analyses this) src
             (case content src of Parsed r \<Rightarrow> r | Raw raw \<Rightarrow> next_ref rt) fl (m, c, results rt)"
proof -
  obtain r0 rt1 where sp: "settle_parse (promise_of env src) rt = (r0, rt1)"
    by (cases "settle_parse (promise_of env src) rt")
  from assms sp obtain fl0 where r0: "r0 = Inr fl0"
    by (cases r0) (auto simp: Optimizer_optimizeSingleFile_def)
  obtain thr m1 c1 rt2 where rs:
    "run_single (singleFileOptimizations this) m fl0 (analyses this) c rt1 = (thr, m1, c1, rt2)"
    by (metis prod_cases4)
  from assms sp r0 rs have res: "thr = None" "fl = fl0" "m' = m1" "c' = c1" "rt' = rt2"
    by (auto simp: Optimizer_optimizeSingleFile_def split: option.splits)
  have nx: "next_ref rt2 = next_ref rt1" using run_single_shape[OF rs] by simp
  have st: "(m1, c1, results rt2) =
      fold (\<lambda>kp. invoke_single (snd kp) fl0 (analyses this)) (singleFileOptimizations this)
        (m, c, results rt1)"
    using run_single_effect[OF rs[unfolded res(1)]] .
  show ?thesis
  proof (cases "content src")
    case (Raw raw)
    with sp r0 obtain t where
      t: "postcss_process env raw (filename src) (sourceMap src) = Inr t"
      by (cases "postcss_process env raw (filename src) (sourceMap src)")
         (auto simp: settle_parse_def promise_of_def)
    from sp r0 Raw t have
      "fl0 = \<lparr>content = Parsed (next_ref rt), filename = filename src, sourceMap = None\<rparr>"
      "results rt1 = (results rt)(next_ref rt := t)" "next_ref rt1 = Suc (next_ref rt)"
      by (auto simp: settle_parse_def promise_of_def Let_def)
    with st nx res Raw t show ?thesis
      by (simp add: single_file_effect_def load_def is_raw_def)
  next
    case (Parsed r)
    from sp r0 Parsed have "fl0 = src" "rt1 = rt"
      by (auto simp: settle_parse_def promise_of_def)
    with st nx res Parsed show ?thesis
      by (simp add: single_file_effect_def load_def is_raw_def)
  qed
qed

lemma resolved_head:
  "resolved_ref srcs (i # js) nr i = (case content (srcs ! i) of Parsed r \<Rightarrow> r | Raw raw \<Rightarrow> nr)"
  "resolved srcs (i # js) nr i =
     (case content (srcs ! i) of
        Parsed r \<Rightarrow> srcs ! i
      | Raw raw \<Rightarrow> \<lparr>content = Parsed nr, filename = filename (srcs ! i), sourceMap = None\<rparr>)"
  by (simp_all add: resolved_ref_def resolved_def split: content.splits)

lemma resolved_tail:
  assumes "j \<noteq> i"
  shows "resolved_ref srcs (i # js) nr j =
           resolved_ref srcs js (nr + (if is_raw (srcs ! i) then 1 else 0)) j"
    and "resolved srcs (i # js) nr j =
           resolved srcs js (nr + (if is_raw (srcs ! i) then 1 else 0)) j"
  using assms by (simp_all add: resolved_ref_def resolved_def split: content.splits)

lemma settle_all_effect:
  "settle_all this (map (promise_of env) srcs) js (None, vals, m, c, rt)
      = (None, vals', m', c', rt') \<Longrightarrow>
   distinct js \<Longrightarrow> \<forall>i\<in>set js. i < length vals \<and> i < length srcs \<Longrightarrow>
     (\<forall>i\<in>set js. vals' ! i = Some (resolved srcs js (next_ref rt) i)) \<and>
     (m', c', results rt') =
        fold (\<lambda>i. single_file_effect env (singleFileOptimizations this) (analyses this)
                      (srcs ! i) (resolved_ref srcs js (next_ref rt) i)
                      (resolved srcs js (next_ref rt) i))
             js (m, c, results rt)"
proof (induction js arbitrary: vals m c rt)
  case Nil
  then show ?case by simp
next
  case (Cons i js)
  let ?ps = "map (promise_of env) srcs"
  from Cons.prems have i: "i < length vals" "i < length srcs" and d: "distinct js" "i \<notin> set js"
    by auto
  have pi: "?ps ! i = promise_of env (srcs ! i)" using i by simp
  obtain r m1 c1 rt1 where task: "Optimizer_optimizeSingleFile this m (?ps ! i) c rt = (r, m1, c1, rt1)"
    by (metis prod_cases4)
  define rej1 where "rej1 = (case r of Inl e \<Rightarrow> Some e | Inr fl \<Rightarrow> None)"
  define vals1 where "vals1 = (case r of Inl e \<Rightarrow> vals | Inr fl \<Rightarrow> vals[i := Some fl])"
  have rec: "settle_all this ?ps js (rej1, vals1, m1, c1, rt1) = (None, vals', m', c', rt')"
    using Cons.prems(1) settle_all_Cons[OF task, of js None vals]
    by (simp add: rej1_def vals1_def split: sum.splits)
  from settle_all_general[OF rec] have rej1: "rej1 = None" by auto
  then obtain fl where r: "r = Inr fl" by (auto simp: rej1_def split: sum.splits)
  have vals1: "vals1 = vals[i := Some fl]" by (simp add: vals1_def r)
  note te = task_effect[OF task[unfolded pi r]]
  let ?nr1 = "next_ref rt + (if is_raw (srcs ! i) then 1 else 0)"
  have nx: "next_ref rt1 = ?nr1" using te by simp
  have fl: "fl = resolved srcs (i # js) (next_ref rt) i" using te by (simp add: resolved_head)
  have st1: "(m1, c1, results rt1) =
      single_file_effect env (singleFileOptimizations this) (analyses this)
                      (srcs ! i) (resolved_ref srcs (i # js) (next_ref rt) i)
        (resolved srcs (i # js) (next_ref rt) i) (m, c, results rt)"
    using te fl by (simp add: resolved_head)
  have pre: "\<forall>j\<in>set js. j < length vals1 \<and> j < length srcs"
    using Cons.prems(3) vals1 by simp
  from Cons.IH[OF rec[unfolded rej1] d(1) pre]
  have ih: "\<forall>j\<in>set js. vals' ! j = Some (resolved srcs js (next_ref rt1) j)"
    "(m', c', results rt') =
        fold (\<lambda>j. single_file_effect env (singleFileOptimizations this) (analyses this)
                      (srcs ! j) (resolved_ref srcs js (next_ref rt1) j)
                      (resolved srcs js (next_ref rt1) j))
             js (m1, c1, results rt1)"
    by blast+
  have same: "resolved_ref srcs js (next_ref rt1) j = resolved_ref srcs (i # js) (next_ref rt) j"
             "resolved srcs js (next_ref rt1) j = resolved srcs (i # js) (next_ref rt) j"
    if "j \<in> set js" for j
  proof -
    from that d have "j \<noteq> i" by auto
    then show "resolved_ref srcs js (next_ref rt1) j = resolved_ref srcs (i # js) (next_ref rt) j"
      and "resolved srcs js (next_ref rt1) j = resolved srcs (i # js) (next_ref rt) j"
      unfolding nx by (simp_all add: resolved_tail)
  qed
  from settle_all_success[OF rec[unfolded rej1] d(1)] pre
  have "\<forall>k. k \<notin> set js \<longrightarrow> vals' ! k = vals1 ! k" by blast
  then have vi: "vals' ! i = Some fl" using d i vals1 by simp
  have a: "\<forall>j\<in>set (i # js). vals' ! j = Some (resolved srcs (i # js) (next_ref rt) j)"
    using ih(1) same vi fl by auto
  have "fold (\<lambda>j. single_file_effect env (singleFileOptimizations this) (analyses this)
                      (srcs ! j) (resolved_ref srcs js (next_ref rt1) j)
                      (resolved srcs js (next_ref rt1) j)) js (m1, c1, results rt1) =
        fold (\<lambda>j. single_file_effect env (singleFileOptimizations this) (analyses this)
                      (srcs ! j)
                      (resolved_ref srcs (i # js) (next_ref rt) j)
                      (resolved srcs (i # js) (next_ref rt) j)) js (m1, c1, results rt1)"
    by (rule fold_cong) (simp_all add: same)
  with ih(2) st1 have b: "(m', c', results rt') =
        fold (\<lambda>j. single_file_effect env (singleFileOptimizations this) (analyses this)
                      (srcs ! j)
                      (resolved_ref srcs (i # js) (next_ref rt) j)
                      (resolved srcs (i # js) (next_ref rt) j))
             (i # js) (m, c, results rt)"
    by simp
  from a b show ?case by blast
qed

lemma content_resolved:
  "content (resolved srcs order nr i) = Parsed (resolved_ref srcs order nr i)"
  by (simp add: resolved_def resolved_ref_def split: content.splits)

lemma filename_resolved:
  "filename_or_default (resolved srcs order nr i) = filename_or_default (srcs ! i)"
  by (simp add: resolved_def filename_or_default_def split: content.splits)

lemma optimize_exact:
  assumes run: "optimize env this out sched rt = (Inr res, rt')"
  shows "styleMapping res = fst (pipeline_effect env (singleFileOptimizations this) (multiFileOptimizations this)
        (analyses this) (sources this) sched (next_ref rt) (results rt))"
    and "results rt' = snd (snd (pipeline_effect env (singleFileOptimizations this) (multiFileOptimizations this)
        (analyses this) (sources this) sched (next_ref rt) (results rt)))"
    and "\<exists>evs. trace rt' = trace rt @ evs \<and>
           map call_of evs =
             map Parse (raw_texts (sources this)) @
             concat (map (\<lambda>i. map (\<lambda>kp. Single (fst kp)
                                     (resolved (sources this)
                                        (settle_order (length (sources this)) sched)
                                        (next_ref rt) i))
                                (singleFileOptimizations this))
                         (settle_order (length (sources this)) sched)) @
             map (\<lambda>kp. Multi (fst kp)
                     (map (resolved (sources this) (settle_order (length (sources this)) sched)
                             (next_ref rt))
                          [0..<length (sources this)]))
                 (multiFileOptimizations this)"
    and "output res =
           \<lparr>content = Raw (concat (intersperse [CHR 0x0A]
                (map (\<lambda>i. fst (toResult env
                          (results rt' (resolved_ref (sources this)
                             (settle_order (length (sources this)) sched) (next_ref rt) i)) out))
                     [0..<length (sources this)]))),
            filename = Some out,
            sourceMap = merged_sourceMap env out
              (map (\<lambda>i. (filename_or_default (sources this ! i),
                         fst (toResult env
                          (results rt' (resolved_ref (sources this)
                             (settle_order (length (sources this)) sched) (next_ref rt) i)) out),
                         snd (toResult env
                          (results rt' (resolved_ref (sources this)
                             (settle_order (length (sources this)) sched) (next_ref rt) i)) out)))
                   [0..<length (sources this)])\<rparr>"
proof -
  let ?srcs = "sources this"
  let ?n = "length ?srcs"
  let ?js = "settle_order ?n sched"
  let ?res = "resolved ?srcs ?js (next_ref rt)"
  let ?ref = "resolved_ref ?srcs ?js (next_ref rt)"
  from optimize_runtime[OF run] obtain rej vals m1 c1 rt1 where
    p1: "phase1 env this sched rt = (rej, vals, m1, c1, rt1)" and
    rest: "case rej of
              Some e \<Rightarrow> Inr res = (Inl e :: error + 'a OptimizationResult) \<and> rt' = rt1
            | None \<Rightarrow>
               (\<exists>thr m2 c2.
                  run_multi (multiFileOptimizations this) m1 (values_of vals) (analyses this)
                     c1 rt1 = (thr, m2, c2, rt') \<and>
                  (\<forall>e. thr = Some e \<longrightarrow> Inr res = (Inl e :: error + 'a OptimizationResult)) \<and>
                  (\<forall>res'. Inr res = (Inr res' :: error + 'a OptimizationResult) \<longrightarrow>
                       thr = None \<and> styleMapping res' = m2))"
    by blast
  from rest have rej: "rej = None" by (cases rej) auto
  with rest obtain m2 c2 where
    rm: "run_multi (multiFileOptimizations this) m1 (values_of vals) (analyses this)
                     c1 rt1 = (None, m2, c2, rt')"
    and sm: "styleMapping res = m2"
    by auto
  note s = phase1_success[OF p1[unfolded rej]]
  have len: "length vals = ?n" using phase1_general[OF p1] by simp
  define rt0 where "rt0 = rt\<lparr>trace := trace rt @ map ParserCall (raw_texts ?srcs)\<rparr>"
  have rt0: "next_ref rt0 = next_ref rt" "results rt0 = results rt" by (simp_all add: rt0_def)
  have sa: "settle_all this (map (promise_of env) ?srcs) ?js
      (None, replicate ?n None, new_StyleMapping env, new_SelectorCache env, rt0)
      = (None, vals, m1, c1, rt1)"
    using p1[unfolded rej phase1_def] by (simp add: rt0_def)
  have pre: "distinct ?js"
    "\<forall>i\<in>set ?js. i < length (replicate ?n (None :: CssFile option)) \<and> i < length ?srcs"
    by (simp_all add: settle_order_distinct settle_order_set)
  note e = settle_all_effect[OF sa pre, unfolded rt0]
  have vi: "vals ! i = Some (?res i)" if "i < ?n" for i
    using e that by (simp add: settle_order_set)
  have fi: "values_of vals ! i = ?res i" if "i < ?n" for i
    using s vi[OF that] that by auto
  have fls: "values_of vals = map ?res [0..<?n]"
    using s fi by (intro nth_equalityI) simp_all
  have st1: "(m1, c1, results rt1) =
      fold (\<lambda>i. single_file_effect env (singleFileOptimizations this) (analyses this)
                 (?srcs ! i) (?ref i) (?res i)) ?js
        (new_StyleMapping env, new_SelectorCache env, results rt)"
    using e by blast
  have st2: "(m2, c2, results rt') =
      pipeline_effect env (singleFileOptimizations this) (multiFileOptimizations this)
        (analyses this) (sources this) sched (next_ref rt) (results rt)"
    using run_multi_effect[OF rm] unfolding fls st1 by (simp add: pipeline_effect_def Let_def)
  show "styleMapping res = fst (pipeline_effect env (singleFileOptimizations this) (multiFileOptimizations this)
        (analyses this) (sources this) sched (next_ref rt) (results rt))"
    unfolding st2[symmetric] sm by simp
  show "results rt' = snd (snd (pipeline_effect env (singleFileOptimizations this) (multiFileOptimizations this)
        (analyses this) (sources this) sched (next_ref rt) (results rt)))"
    unfolding st2[symmetric] by simp
  from phase1_general[OF p1] obtain evs1 where
    e1: "trace rt1 = trace rt @ map ParserCall (raw_texts ?srcs) @ evs1" by blast
  from run_multi_shape[OF rm] obtain evs2 where
    e2: "trace rt' = trace rt1 @ evs2"
        "map call_of evs2 = map (\<lambda>kp. Multi (fst kp) (values_of vals)) (multiFileOptimizations this)"
    by auto
  have c1: "map call_of evs1 =
              concat (map (\<lambda>i. map (\<lambda>kp. Single (fst kp) (values_of vals ! i))
                                 (singleFileOptimizations this)) ?js)"
    using s e1 by blast
  have c1': "concat (map (\<lambda>i. map (\<lambda>kp. Single (fst kp) (values_of vals ! i))
                                 (singleFileOptimizations this)) ?js) =
             concat (map (\<lambda>i. map (\<lambda>kp. Single (fst kp) (?res i))
                                 (singleFileOptimizations this)) ?js)"
    by (rule arg_cong[where f = concat], rule map_cong) (simp_all add: settle_order_set fi)
  have tr: "trace rt' = trace rt @ (map ParserCall (raw_texts ?srcs) @ evs1 @ evs2)"
    using e1 e2 by simp
  have calls: "map call_of (map ParserCall (raw_texts ?srcs) @ evs1 @ evs2) =
             map Parse (raw_texts ?srcs) @
             concat (map (\<lambda>i. map (\<lambda>kp. Single (fst kp) (?res i))
                                (singleFileOptimizations this)) ?js) @
             map (\<lambda>kp. Multi (fst kp) (map ?res [0..<?n])) (multiFileOptimizations this)"
    using c1 c1' e2(2) unfolding fls by (simp add: comp_def)
  from tr calls show "\<exists>evs. trace rt' = trace rt @ evs \<and>
           map call_of evs =
             map Parse (raw_texts ?srcs) @
             concat (map (\<lambda>i. map (\<lambda>kp. Single (fst kp) (?res i))
                                (singleFileOptimizations this)) ?js) @
             map (\<lambda>kp. Multi (fst kp) (map ?res [0..<?n])) (multiFileOptimizations this)"
    by blast
  have refs: "map content (map ?res [0..<?n]) = map Parsed (map ?ref [0..<?n])"
    by (simp add: content_resolved)
  note af = add_files_refs[OF refs, of env out "results rt'" "new_Concat True out [CHR 0x0A]"]
  have z: "zip (map ?res [0..<?n]) (map ?ref [0..<?n]) = map (\<lambda>i. (?res i, ?ref i)) [0..<?n]"
    by (simp add: zip_map_map zip_same_conv_map)
  from optimize_resolved[OF p1[unfolded rej] rm, of out] run af
  show "output res =
           \<lparr>content = Raw (concat (intersperse [CHR 0x0A]
                (map (\<lambda>i. fst (toResult env (results rt' (?ref i)) out)) [0..<?n]))),
            filename = Some out,
            sourceMap = merged_sourceMap env out
              (map (\<lambda>i. (filename_or_default (?srcs ! i),
                         fst (toResult env (results rt' (?ref i)) out),
                         snd (toResult env (results rt' (?ref i)) out))) [0..<?n])\<rparr>"
    unfolding fls z
    by (auto simp: new_Concat_def comp_def filename_resolved)
qed


text \<open>
  C8. \<open>addSource\<close> appends, and the output follows the order of the sources whatever the
  order in which the promises settled: the i-th part of the output is the printed rule
  tree of the file that the i-th source resolved with, the parts are joined by a newline,
  and the i-th entry of the source map carries the file name of the i-th source.
\<close>

theorem output_in_source_order:
  assumes run: "optimize env (fold addSource srcs this) out sched rt = (Inr res, rt')"
  shows "sources (fold addSource srcs this) = sources this @ srcs
       \<and> output res =
           \<lparr>content = Raw (concat (intersperse [CHR 0x0A]
                (map (\<lambda>i. fst (toResult env
                          (results rt' (resolved_ref (sources this @ srcs)
                             (settle_order (length (sources this @ srcs)) sched)
                             (next_ref rt) i)) out))
                     [0..<length (sources this @ srcs)]))),
            filename = Some out,
            sourceMap = merged_sourceMap env out
              (map (\<lambda>i. (filename_or_default ((sources this @ srcs) ! i),
                         fst (toResult env
                          (results rt' (resolved_ref (sources this @ srcs)
                             (settle_order (length (sources this @ srcs)) sched)
                             (next_ref rt) i)) out),
                         snd (toResult env
                          (results rt' (resolved_ref (sources this @ srcs)
                             (settle_order (length (sources this @ srcs)) sched)
                             (next_ref rt) i)) out)))
                   [0..<length (sources this @ srcs)])\<rparr>
       \<and> results rt' =
           snd (snd (pipeline_effect env (singleFileOptimizations this)
                       (multiFileOptimizations this) (analyses this) (sources this @ srcs) sched
                       (next_ref rt) (results rt)))"
proof -
  let ?opt = "fold addSource srcs this"
  have f: "sources ?opt = sources this @ srcs"
          "singleFileOptimizations ?opt = singleFileOptimizations this"
          "multiFileOptimizations ?opt = multiFileOptimizations this"
          "analyses ?opt = analyses this"
    by (simp_all add: fold_addSource)
  note e = optimize_exact[OF run, unfolded f]
  from f(1) e(4) e(2) show ?thesis by (intro conjI)
qed

section \<open>Parsing\<close>

lemma optimize_calls:
  assumes "optimize env this out sched rt = (r, rt')"
  shows "\<exists>evs. trace rt' = trace rt @ map ParserCall (raw_texts (sources this)) @ evs \<and>
               (\<forall>e\<in>set evs. (\<exists>k fl. call_of e = Single k fl) \<or>
                            (\<exists>k fls. call_of e = Multi k fls))"
proof -
  from optimize_runtime[OF assms] obtain rej vals m1 c1 rt1 where
    p1: "phase1 env this sched rt = (rej, vals, m1, c1, rt1)" and
    rest: "case rej of
              Some e \<Rightarrow> r = Inl e \<and> rt' = rt1
            | None \<Rightarrow>
               (\<exists>thr m2 c2.
                  run_multi (multiFileOptimizations this) m1 (values_of vals) (analyses this)
                     c1 rt1 = (thr, m2, c2, rt') \<and>
                  (\<forall>e. thr = Some e \<longrightarrow> r = Inl e) \<and>
                  (\<forall>res. r = Inr res \<longrightarrow> thr = None \<and> styleMapping res = m2))"
    by blast
  let ?parse = "map ParserCall (raw_texts (sources this))"
  from phase1_general[OF p1] obtain evs1 where
    e1: "trace rt1 = trace rt @ ?parse @ evs1"
        "\<forall>e\<in>set evs1. \<exists>k fl. call_of e = Single k fl"
    by blast
  show ?thesis
  proof (cases rej)
    case (Some e)
    with rest e1 show ?thesis by auto
  next
    case None
    with rest obtain thr m2 c2 where
      rm: "run_multi (multiFileOptimizations this) m1 (values_of vals) (analyses this)
             c1 rt1 = (thr, m2, c2, rt')"
      by auto
    from run_multi_shape[OF rm] obtain evs2 j where
      e2: "trace rt' = trace rt1 @ evs2"
          "map call_of evs2 = map (\<lambda>kp. Multi (fst kp) (values_of vals))
                                 (take j (multiFileOptimizations this))"
      by blast
    have multi: "\<exists>k fls. call_of e = Multi k fls" if "e \<in> set evs2" for e
    proof -
      from that have "call_of e \<in> set (map call_of evs2)" by simp
      then show ?thesis unfolding e2(2) by auto
    qed
    have "trace rt' = trace rt @ ?parse @ (evs1 @ evs2)" using e1 e2 by simp
    moreover have "\<forall>e\<in>set (evs1 @ evs2). (\<exists>k fl. call_of e = Single k fl) \<or>
                            (\<exists>k fls. call_of e = Multi k fls)"
      using e1(2) multi by auto
    ultimately show ?thesis by blast
  qed
qed

text \<open>
  C10. For a source whose content is a parsed handle, the parse step (the call and the
  settling of its promise) yields that same file and leaves the runtime as it was: no
  parser call is recorded and nothing is allocated. For a source whose content is a
  text, the parser is called on that text. So in a run of \<open>optimize\<close> the parser calls
  are those of the raw texts among the sources, in the order of the sources, and no
  other.
\<close>

theorem parsed_source_not_reparsed:
  assumes run: "optimize env this out sched rt0 = (res, rt1)"
  shows "(\<forall>r. content fl = Parsed r \<longrightarrow>
            (case parseCss env fl rt of (p, rt') \<Rightarrow> settle_parse p rt') = (Inr fl, rt))
       \<and> (\<forall>raw. content fl = Raw raw \<longrightarrow>
            trace (snd (parseCss env fl rt)) = trace rt @ [ParserCall raw])
       \<and> (\<exists>evs. trace rt1 = trace rt0 @ map ParserCall (raw_texts (sources this)) @ evs \<and>
                 (\<forall>e\<in>set evs. \<not> (\<exists>raw. call_of e = Parse raw)))"
proof -
  have a: "\<forall>r. content fl = Parsed r \<longrightarrow>
            (case parseCss env fl rt of (p, rt') \<Rightarrow> settle_parse p rt') = (Inr fl, rt)"
    by (simp add: parseCss_def settle_parse_def)
  have b: "\<forall>raw. content fl = Raw raw \<longrightarrow>
            trace (snd (parseCss env fl rt)) = trace rt @ [ParserCall raw]"
    by (simp add: parseCss_def)
  from optimize_calls[OF run] obtain evs where
    e: "trace rt1 = trace rt0 @ map ParserCall (raw_texts (sources this)) @ evs"
       "\<forall>e\<in>set evs. (\<exists>k fl. call_of e = Single k fl) \<or> (\<exists>k fls. call_of e = Multi k fls)"
    by blast
  have "\<forall>e\<in>set evs. \<not> (\<exists>raw. call_of e = Parse raw)"
  proof
    fix ev assume "ev \<in> set evs"
    with e(2) have "(\<exists>k fl. call_of ev = Single k fl) \<or> (\<exists>k fls. call_of ev = Multi k fls)"
      by blast
    then show "\<not> (\<exists>raw. call_of ev = Parse raw)" by auto
  qed
  with e(1) have c: "\<exists>evs. trace rt1 = trace rt0 @ map ParserCall (raw_texts (sources this)) @ evs \<and>
                 (\<forall>e\<in>set evs. \<not> (\<exists>raw. call_of e = Parse raw))"
    by blast
  from a b c show ?thesis by (intro conjI)
qed

section \<open>The properties on the small configuration\<close>

lemmas run_simps = optimize_def parseCss_def settle_order_def Optimizer_optimizeSingleFile_def
  settle_parse_def Optimizer_optimizeAllFiles_def mark_single_def mark_multi_def
  new_Concat_def Concat_add_def filename_or_default_def addSource_def addAnalysis_def
  a_css_def pre_css_def b_css_def bad_css_def demo_base_def demo_optimizer_def demo_off_def
  both_passes_def single_pass_def parsed_a_def demo_rt1_def demo_sched_def


lemma demo_construct_off: "fst (new_Optimizer demo_env 2 demo_rt) = Inr demo_off"
  by (simp add: demo_simps demo_off_def)

lemma demo_run:
  "optimize demo_env demo_optimizer ''out.css'' demo_sched demo_rt1 =
     (Inr \<lparr>output =
            \<lparr>content = Raw (''.a{}/*unused*//*idents*//*all-idents*/'' @ [CHR 0x0A] @
                             ''.pre{}/*unused*//*idents*//*all-idents*/''),
             filename = Some ''out.css'', sourceMap = Some ''out.css''\<rparr>,
          styleMapping =
            [''/*unused*/'', ''/*idents*/'', ''/*unused*/'', ''/*idents*/'', ''/*all-idents*/'']\<rparr>,
      demo_rt1\<lparr>results := (\<lambda>a. [])(5 := ''.pre{}/*unused*//*idents*//*all-idents*/'',
                                      7 := ''.a{}/*unused*//*idents*//*all-idents*/''),
               next_ref := 8,
               trace := trace demo_rt1 @
                 [ParserCall ''.a{}'',
                  SingleFileCall ''removeUnusedStyles'' pre_css [] 0 [''/*unused*/''] 1,
                  SingleFileCall ''rewriteIdents'' pre_css [''/*unused*/''] 1
                     [''/*unused*/'', ''/*idents*/''] 2,
                  SingleFileCall ''removeUnusedStyles'' parsed_a [''/*unused*/'', ''/*idents*/''] 2
                     [''/*unused*/'', ''/*idents*/'', ''/*unused*/''] 3,
                  SingleFileCall ''rewriteIdents'' parsed_a
                     [''/*unused*/'', ''/*idents*/'', ''/*unused*/''] 3
                     [''/*unused*/'', ''/*idents*/'', ''/*unused*/'', ''/*idents*/''] 4,
                  AllFilesCall ''rewriteIdents'' [parsed_a, pre_css]
                     [''/*unused*/'', ''/*idents*/'', ''/*unused*/'', ''/*idents*/''] 4
                     [''/*unused*/'', ''/*idents*/'', ''/*unused*/'', ''/*idents*/'',
                      ''/*all-idents*/''] 5]\<rparr>)"
  by (simp add: run_simps demo_env_def fun_upd_twist)


lemma demo_run_off:
  "fst (optimize demo_env (fold addSource [a_css, pre_css] (fold addAnalysis [()] demo_off))
          ''out.css'' demo_sched demo_rt) =
     Inr \<lparr>output = \<lparr>content = Raw (''.a{}'' @ [CHR 0x0A] @ ''.pre{}''),
                     filename = Some ''out.css'', sourceMap = Some ''out.css''\<rparr>,
          styleMapping = []\<rparr>"
  by (simp add: run_simps demo_env_def demo_rt_def)


lemma demo_refs:
  "settle_order (length [a_css, pre_css]) demo_sched = [1, 0]"
  "resolved_ref [a_css, pre_css] [1, 0] 7 0 = 7"
  "resolved_ref [a_css, pre_css] [1, 0] 7 1 = 5"
  "resolved [a_css, pre_css] [1, 0] 7 0 = parsed_a"
  "resolved [a_css, pre_css] [1, 0] 7 1 = pre_css"
  by (simp_all add: settle_order_def demo_sched_def resolved_ref_def resolved_def is_raw_def
        a_css_def pre_css_def parsed_a_def)

lemma demo_effect:
  "pipeline_effect demo_env (singleFileOptimizations demo_base) (multiFileOptimizations demo_base)
     (analyses demo_base) [a_css, pre_css] demo_sched 7 (results demo_rt1) =
   ([''/*unused*/'', ''/*idents*/'', ''/*unused*/'', ''/*idents*/'', ''/*all-idents*/''], 5,
    (\<lambda>a. [])(5 := ''.pre{}/*unused*//*idents*//*all-idents*/'',
             7 := ''.a{}/*unused*//*idents*//*all-idents*/''))"
  by (simp add: pipeline_effect_def Let_def settle_order_def demo_sched_def resolved_ref_def
        resolved_def is_raw_def upt_rec[of 0] upt_rec[of "Suc 0"] single_file_effect_def
        load_def invoke_single_def invoke_multi_def demo_base_def demo_rt1_def both_passes_def
        single_pass_def mark_single_def mark_multi_def demo_env_def a_css_def pre_css_def
        fun_upd_twist)

theorem disabled_is_pass_through_witness:
  "fst (new_Optimizer demo_env 2 demo_rt) = Inr demo_off
   \<and> singleFileOptimizations demo_off = [] \<and> multiFileOptimizations demo_off = []
   \<and> fst (optimize demo_env (fold addSource [a_css, pre_css] (fold addAnalysis [()] demo_off))
            ''out.css'' demo_sched demo_rt) =
       Inr \<lparr>output = \<lparr>content = Raw (''.a{}'' @ [CHR 0x0A] @ ''.pre{}''),
                       filename = Some ''out.css'', sourceMap = Some ''out.css''\<rparr>,
            styleMapping = new_StyleMapping demo_env\<rparr>"
proof -
  have off: "map_of (objects demo_rt 2) ''enabled'' = Some (Bool False)"
    by (simp add: demo_rt_def demo_objects_def)
  have live: "2 < next_ref demo_rt" "DEFAULT_OPTIONS demo_env < next_ref demo_rt"
    by (simp_all add: demo_rt_def demo_env_def)
  have trees: "map (source_tree demo_env (results demo_rt)) [a_css, pre_css]
                 = map Some [''.a{}'', ''.pre{}'']"
    by (simp add: source_tree_def a_css_def pre_css_def demo_env_def demo_rt_def)
  have handles: "\<forall>src\<in>set [a_css, pre_css]. \<forall>r. content src = Parsed r \<longrightarrow> r < next_ref demo_rt"
    by (simp add: a_css_def pre_css_def demo_rt_def)
  from disabled_is_pass_through[OF off live trees handles, of "[()]" "''out.css''" demo_sched]
       demo_construct_off demo_run_off
  show ?thesis by (simp add: demo_off_def demo_env_def)
qed

theorem cross_file_after_single_file_witness:
  "length [parsed_a, pre_css] = length (sources demo_optimizer)
   \<and> settled (promise_of demo_env (sources demo_optimizer ! 0)) parsed_a
   \<and> settled (promise_of demo_env (sources demo_optimizer ! 1)) pre_css
   \<and> map call_of (take 5 (drop 2 (trace (snd
         (optimize demo_env demo_optimizer ''out.css'' demo_sched demo_rt1))))) =
       [Parse ''.a{}'',
        Single ''removeUnusedStyles'' pre_css, Single ''rewriteIdents'' pre_css,
        Single ''removeUnusedStyles'' parsed_a, Single ''rewriteIdents'' parsed_a]
   \<and> map call_of (drop 7 (trace (snd
         (optimize demo_env demo_optimizer ''out.css'' demo_sched demo_rt1)))) =
       [Multi ''rewriteIdents'' [parsed_a, pre_css]]"
proof -
  let ?pre = "[ParserCall ''.a{}'',
      SingleFileCall ''removeUnusedStyles'' pre_css [] 0 [''/*unused*/''] 1,
      SingleFileCall ''rewriteIdents'' pre_css [''/*unused*/''] 1
         [''/*unused*/'', ''/*idents*/''] 2,
      SingleFileCall ''removeUnusedStyles'' parsed_a [''/*unused*/'', ''/*idents*/''] 2
         [''/*unused*/'', ''/*idents*/'', ''/*unused*/''] 3,
      SingleFileCall ''rewriteIdents'' parsed_a
         [''/*unused*/'', ''/*idents*/'', ''/*unused*/''] 3
         [''/*unused*/'', ''/*idents*/'', ''/*unused*/'', ''/*idents*/''] 4]
      :: (string list, nat) event list"
  have at: "trace (snd (optimize demo_env demo_optimizer ''out.css'' demo_sched demo_rt1)) =
      trace demo_rt1 @ ?pre @
      AllFilesCall ''rewriteIdents'' [parsed_a, pre_css]
         [''/*unused*/'', ''/*idents*/'', ''/*unused*/'', ''/*idents*/''] 4
         [''/*unused*/'', ''/*idents*/'', ''/*unused*/'', ''/*idents*/'', ''/*all-idents*/''] 5
      # []"
    by (simp add: demo_run)
  have run: "optimize demo_env demo_optimizer ''out.css'' demo_sched demo_rt1 =
      (fst (optimize demo_env demo_optimizer ''out.css'' demo_sched demo_rt1),
       snd (optimize demo_env demo_optimizer ''out.css'' demo_sched demo_rt1))"
    by simp
  from cross_file_after_single_file[OF run at]
  have "length [parsed_a, pre_css] = length (sources demo_optimizer)" by (rule conjunct1)
  then show ?thesis
    by (simp add: demo_run)
       (simp_all add: demo_rt1_def demo_optimizer_def demo_base_def addSource_def settled_def
          promise_of_def a_css_def pre_css_def parsed_a_def demo_env_def)
qed



theorem mapping_and_cache_per_call_witness:
  "thread (new_StyleMapping demo_env, new_SelectorCache demo_env)
     (drop (length (trace demo_rt1))
        (trace (snd (optimize demo_env demo_optimizer ''out.css'' demo_sched demo_rt1))))
     = Some ([''/*unused*/'', ''/*idents*/'', ''/*unused*/'', ''/*idents*/'', ''/*all-idents*/''], 5)
   \<and> styleMapping (projr (fst (optimize demo_env demo_optimizer ''out.css'' demo_sched demo_rt1)))
     = [''/*unused*/'', ''/*idents*/'', ''/*unused*/'', ''/*idents*/'', ''/*all-idents*/'']"
proof -
  have run: "optimize demo_env demo_optimizer ''out.css'' demo_sched demo_rt1 =
      (fst (optimize demo_env demo_optimizer ''out.css'' demo_sched demo_rt1),
       snd (optimize demo_env demo_optimizer ''out.css'' demo_sched demo_rt1))"
    by simp
  from mapping_and_cache_per_call[OF run] show ?thesis
    by (simp add: demo_run) (simp_all add: demo_env_def parsed_a_def pre_css_def demo_rt1_def)
qed



text \<open>
  C6 as stated fails: these options have a key that no one knows and a text where a
  boolean is expected; the constructor returns an optimizer, and the text counts as true.
\<close>

theorem unknown_option_rejected_counterexample:
  "objects demo_rt 3 = [(''colour'', Num 42), (''removeUnusedStyles'', Str ''sometimes'')]
   \<and> \<not> isl (fst (new_Optimizer demo_env 3 demo_rt))
   \<and> map fst (singleFileOptimizations (projr (fst (new_Optimizer demo_env 3 demo_rt))))
       = [''removeUnusedStyles'', ''rewriteIdents'']"
  by (simp add: demo_simps)

theorem construction_never_validates_witness:
  "fst (new_Optimizer demo_env 4 demo_rt) = Inl (Thrown ''unknown rewrite mode'')
   \<and> truthy (get_prop (objects (snd (new_Optimizer demo_env 4 demo_rt)) (next_ref demo_rt))
              ''rewriteIdents'')"
proof -
  have run: "new_Optimizer demo_env 4 demo_rt =
      (fst (new_Optimizer demo_env 4 demo_rt), snd (new_Optimizer demo_env 4 demo_rt))"
    by simp
  from construction_never_validates[OF run] show ?thesis
    by (simp add: demo_simps)
qed


theorem output_in_source_order_witness:
  "sources (fold addSource [a_css, pre_css] demo_base) = [a_css, pre_css]
   \<and> settle_order (length [a_css, pre_css]) demo_sched = [1, 0]
   \<and> content (output (projr (fst (optimize demo_env (fold addSource [a_css, pre_css] demo_base)
                                   ''out.css'' demo_sched demo_rt1)))) =
       Raw (''.a{}/*unused*//*idents*//*all-idents*/'' @ [CHR 0x0A] @
            ''.pre{}/*unused*//*idents*//*all-idents*/'')"
proof -
  let ?run = "optimize demo_env (fold addSource [a_css, pre_css] demo_base) ''out.css''
                demo_sched demo_rt1"
  have run: "?run = (Inr (projr (fst ?run)), snd ?run)"
    unfolding demo_optimizer_def[symmetric] by (simp add: demo_run)
  note t = output_in_source_order[OF run]
  have src: "sources demo_base @ [a_css, pre_css] = [a_css, pre_css]"
    by (simp add: demo_base_def)
  have nr: "next_ref demo_rt1 = 7" by (simp add: demo_rt1_def)
  have heap: "results (snd ?run) =
       (\<lambda>a. [])(5 := ''.pre{}/*unused*//*idents*//*all-idents*/'',
                7 := ''.a{}/*unused*//*idents*//*all-idents*/'')"
    using t[THEN conjunct2, THEN conjunct2] unfolding src nr demo_effect by simp
  have a: "sources (fold addSource [a_css, pre_css] demo_base) = [a_css, pre_css]"
    using t[THEN conjunct1] unfolding src .
  have b: "settle_order (length [a_css, pre_css]) demo_sched = [1, 0]"
    by (rule demo_refs(1))
  have rf: "resolved_ref [a_css, pre_css] [1, 0] 7 0 = 7"
    "resolved_ref [a_css, pre_css] [1, 0] 7 1 = 5"
    by (rule demo_refs(2), rule demo_refs(3))
  have prn: "toResult demo_env = (\<lambda>t to. (t, to))" by (simp add: demo_env_def)
  have "output (projr (fst ?run)) =
          \<lparr>content = Raw (concat (intersperse [CHR 0x0A]
              (map (\<lambda>i. fst (toResult demo_env
                     (results (snd ?run) (resolved_ref [a_css, pre_css] [1, 0] 7 i)) ''out.css''))
                   [0..<length [a_css, pre_css]]))),
           filename = Some ''out.css'',
           sourceMap = merged_sourceMap demo_env ''out.css''
             (map (\<lambda>i. (filename_or_default ([a_css, pre_css] ! i),
                   fst (toResult demo_env
                     (results (snd ?run) (resolved_ref [a_css, pre_css] [1, 0] 7 i)) ''out.css''),
                   snd (toResult demo_env
                     (results (snd ?run) (resolved_ref [a_css, pre_css] [1, 0] 7 i)) ''out.css'')))
                  [0..<length [a_css, pre_css]])\<rparr>"
    using t[THEN conjunct2, THEN conjunct1] unfolding src nr b .
  then have "content (output (projr (fst ?run))) =
          Raw (concat (intersperse [CHR 0x0A]
              (map (\<lambda>i. fst (toResult demo_env
                     (results (snd ?run) (resolved_ref [a_css, pre_css] [1, 0] 7 i)) ''out.css''))
                   [0, 1])))"
    by (simp add: upt_rec[of 0] upt_rec[of "Suc 0"] upt_rec[of 1])
  then have c: "content (output (projr (fst ?run))) =
       Raw (''.a{}/*unused*//*idents*//*all-idents*/'' @ [CHR 0x0A] @
            ''.pre{}/*unused*//*idents*//*all-idents*/'')"
    unfolding list.map rf heap prn by simp
  from a b c show ?thesis by (intro conjI)
qed

theorem parsed_source_not_reparsed_witness:
  "(case parseCss demo_env pre_css demo_rt of (p, rt') \<Rightarrow> settle_parse p rt')
     = (Inr pre_css, demo_rt)
   \<and> trace (snd (parseCss demo_env a_css demo_rt)) = trace demo_rt @ [ParserCall ''.a{}'']"
proof -
  have run: "optimize demo_env demo_optimizer ''out.css'' demo_sched demo_rt1 =
      (fst (optimize demo_env demo_optimizer ''out.css'' demo_sched demo_rt1),
       snd (optimize demo_env demo_optimizer ''out.css'' demo_sched demo_rt1))"
    by simp
  from parsed_source_not_reparsed[OF run, of pre_css demo_rt]
  have "\<forall>r. content pre_css = Parsed r \<longrightarrow>
          (case parseCss demo_env pre_css demo_rt of (p, rt') \<Rightarrow> settle_parse p rt')
            = (Inr pre_css, demo_rt)"
    by (rule conjunct1)
  then have a: "(case parseCss demo_env pre_css demo_rt of (p, rt') \<Rightarrow> settle_parse p rt')
            = (Inr pre_css, demo_rt)"
    by (simp add: pre_css_def)
  from parsed_source_not_reparsed[OF run, of a_css demo_rt]
  have "\<forall>raw. content a_css = Raw raw \<longrightarrow>
          trace (snd (parseCss demo_env a_css demo_rt)) = trace demo_rt @ [ParserCall raw]"
    by (rule conjunct2[THEN conjunct1])
  then have b: "trace (snd (parseCss demo_env a_css demo_rt)) = trace demo_rt @ [ParserCall ''.a{}'']"
    by (simp add: a_css_def)
  from a b show ?thesis by (rule conjI)
qed

end
